theory Spec2Isabelle
  imports Main "HOL-Library.Word" "HOL-Library.Monad_Syntax"
begin

unbundle bit_operations_syntax

section \<open>MiniOS kernel (kernel.c): a shallow embedding\<close>

text \<open>
  The kernel is one C file for 32-bit x86. Its global variables become record fields that
  each function takes and returns; a \<^verbatim>\<open>uint8_t\<close> is an \<open>8 word\<close>, a \<^verbatim>\<open>uint16_t\<close> a
  \<open>16 word\<close>, a \<^verbatim>\<open>uint32_t\<close> or \<^verbatim>\<open>int32_t\<close> a \<open>32 word\<close>. The \<^verbatim>\<open>int\<close> indices and
  sizes of the keyboard ring and of the file table are \<open>int\<close>: the code keeps them far
  below \<open>2 ^ 31\<close>, so no wrap-around is involved. A \<^verbatim>\<open>char\<close> is a \<open>char\<close> (one byte).
  A function that may spin forever or leave defined behaviour returns an \<open>option\<close>, and
  \<open>None\<close> is that outcome.
\<close>

type_synonym u8 = "8 word"
type_synonym u16 = "16 word"
type_synonym u32 = "32 word"

abbreviation NUL :: char where "NUL \<equiv> CHR 0x00"

text \<open>C's \<^verbatim>\<open>%\<close> on \<^verbatim>\<open>int\<close> truncates towards zero: the result has the sign of the dividend.\<close>

definition c_mod :: "int \<Rightarrow> int \<Rightarrow> int" where
  "c_mod a b = sgn a * (\<bar>a\<bar> mod \<bar>b\<bar>)"

subsection \<open>I/O ports\<close>

text \<open>
  \<^verbatim>\<open>outb(port, val)\<close> is recorded in the list of bytes written so far, oldest first.
  What \<^verbatim>\<open>inb(port)\<close> returns is decided by the device, outside this file: the functions
  that read a port take a function \<open>inb\<close> giving the byte each port presents.
\<close>

type_synonym port_log = "(u16 \<times> u8) list"
type_synonym port_in = "u16 \<Rightarrow> u8"

definition outb :: "u16 \<Rightarrow> u8 \<Rightarrow> port_log \<Rightarrow> port_log" where
  "outb port val log = log @ [(port, val)]"

subsection \<open>Scancode table and keyboard ring buffer\<close>

text \<open>\<^verbatim>\<open>scancode_map[128]\<close>: 58 initialisers, the remaining entries are zero.\<close>

definition scancode_map :: "char list" where
  "scancode_map =
     [NUL, CHR 0x1B] @ ''1234567890-='' @ [CHR 0x08,
      CHR 0x09] @ ''qwertyuiop[]'' @ [CHR 0x0A, NUL] @
     ''asdfghjkl;'' @ [CHR 0x27] @ ''`'' @ [NUL, CHR 0x5C] @ ''zx'' @
     ''cvbnm,./'' @ [NUL] @ ''*'' @ [NUL] @ '' ''
     @ replicate 70 NUL"

abbreviation KBUF_SIZE :: int where "KBUF_SIZE \<equiv> 256"

text \<open>The globals \<^verbatim>\<open>kbuf\<close>, \<^verbatim>\<open>kbuf_head\<close>, \<^verbatim>\<open>kbuf_tail\<close>.\<close>

record kq =
  kbuf :: "char list"
  kbuf_head :: int
  kbuf_tail :: int

text \<open>
  \<^verbatim>\<open>keyboard_handler\<close>, run once per keyboard interrupt. \<open>inb 0x60\<close> is the scancode the
  keyboard presents. \<^verbatim>\<open>sizeof(scancode_map)\<close> is 128.
\<close>

definition keyboard_handler :: "port_in \<Rightarrow> kq \<Rightarrow> kq" where
  "keyboard_handler inb q =
     (let sc = inb 0x60 in
      if sc AND 0x80 \<noteq> 0 then q
      else
        let c = (if unat sc < 128 then scancode_map ! unat sc else NUL) in
        if c = NUL then q
        else
          let next = c_mod (kbuf_head q + 1) KBUF_SIZE in
          if next \<noteq> kbuf_tail q
          then q\<lparr>kbuf := (kbuf q)[nat (kbuf_head q) := c], kbuf_head := next\<rparr>
          else q)"

text \<open>
  \<^verbatim>\<open>keyboard_getchar_irq\<close>. The busy-wait \<^verbatim>\<open>while (kbuf_head == kbuf_tail) {}\<close> changes
  nothing itself; only an interrupt can end it. Run on its own, between two interrupts,
  it never returns when the ring is empty: \<open>kbuf_wait\<close> is then \<open>None\<close>.
\<close>

partial_function (option) kbuf_wait :: "kq \<Rightarrow> kq option" where
  "kbuf_wait q = (if kbuf_head q = kbuf_tail q then kbuf_wait q else Some q)"

definition keyboard_getchar_irq :: "kq \<Rightarrow> (char \<times> kq) option" where
  "keyboard_getchar_irq q =
     (case kbuf_wait q of
        None \<Rightarrow> None
      | Some q1 \<Rightarrow>
          Some (kbuf q1 ! nat (kbuf_tail q1),
                q1\<lparr>kbuf_tail := c_mod (kbuf_tail q1 + 1) KBUF_SIZE\<rparr>))"

text \<open>
  An execution of the two contexts is a list of events: \<open>Irq sc\<close> is one run of the handler
  with scancode \<open>sc\<close> at the data port, \<open>Getchar\<close> one call of \<^verbatim>\<open>keyboard_getchar_irq\<close>
  that runs between two interrupts. \<open>run_events\<close> returns the characters the calls
  returned, in order, or \<open>None\<close> when a call never returns.
\<close>

datatype kev = Irq u8 | Getchar

fun run_events :: "kev list \<Rightarrow> kq \<Rightarrow> (char list \<times> kq) option" where
  "run_events [] q = Some ([], q)"
| "run_events (Irq sc # es) q = run_events es (keyboard_handler (\<lambda>_. sc) q)"
| "run_events (Getchar # es) q =
     (case keyboard_getchar_irq q of
        None \<Rightarrow> None
      | Some (c, q1) \<Rightarrow>
          (case run_events es q1 of
             None \<Rightarrow> None
           | Some (cs, q2) \<Rightarrow> Some (c # cs, q2)))"

text \<open>
  The character a scancode makes the handler push, if any: make-codes (high bit clear)
  with a non-zero table entry.
\<close>

definition key_char :: "u8 \<Rightarrow> char option" where
  "key_char sc =
     (if sc AND 0x80 \<noteq> 0 then None
      else if unat sc < 128 \<and> scancode_map ! unat sc \<noteq> NUL
      then Some (scancode_map ! unat sc) else None)"

fun pushed :: "kev list \<Rightarrow> char list" where
  "pushed [] = []"
| "pushed (Irq sc # es) = (case key_char sc of None \<Rightarrow> pushed es | Some c \<Rightarrow> c # pushed es)"
| "pushed (Getchar # es) = pushed es"

fun pops :: "kev list \<Rightarrow> nat" where
  "pops [] = 0"
| "pops (Irq sc # es) = pops es"
| "pops (Getchar # es) = Suc (pops es)"

text \<open>
  \<open>pending_ok es n\<close>: starting with \<open>n\<close> pending characters, the number of characters
  pushed and not yet popped never exceeds \<open>KBUF_SIZE - 1\<close> along \<open>es\<close>, and every
  \<open>Getchar\<close> has a pending character to return.
\<close>

fun pending_ok :: "kev list \<Rightarrow> nat \<Rightarrow> bool" where
  "pending_ok [] n = True"
| "pending_ok (Irq sc # es) n =
     (case key_char sc of
        None \<Rightarrow> pending_ok es n
      | Some c \<Rightarrow> Suc n \<le> 255 \<and> pending_ok es (Suc n))"
| "pending_ok (Getchar # es) n = (0 < n \<and> pending_ok es (n - 1))"

text \<open>The ring as \<^verbatim>\<open>interrupts_install\<close> leaves it: indices reset, contents arbitrary.\<close>

definition kq_reset :: "kq \<Rightarrow> kq" where
  "kq_reset q = q\<lparr>kbuf_head := 0, kbuf_tail := 0\<rparr>"

text \<open>Shape of a ring state: 256 cells and both indices inside the array.\<close>

definition kq_inv :: "kq \<Rightarrow> bool" where
  "kq_inv q \<longleftrightarrow>
     length (kbuf q) = 256 \<and> 0 \<le> kbuf_head q \<and> kbuf_head q < 256 \<and>
     0 \<le> kbuf_tail q \<and> kbuf_tail q < 256"

text \<open>The pending characters, oldest first: the cells from tail up to head.\<close>

definition kq_count :: "kq \<Rightarrow> nat" where
  "kq_count q = nat ((kbuf_head q - kbuf_tail q) mod 256)"

definition kq_list :: "kq \<Rightarrow> char list" where
  "kq_list q = map (\<lambda>i. kbuf q ! nat ((kbuf_tail q + int i) mod 256)) [0..<kq_count q]"

subsection \<open>Interrupt controller\<close>

text \<open>\<^verbatim>\<open>pic_remap\<close>: two reads, then ten writes.\<close>

definition pic_remap :: "port_in \<Rightarrow> port_log \<Rightarrow> port_log" where
  "pic_remap inb log =
     (let a1 = inb 0x21;
          a2 = inb 0xA1;
          log = outb 0x20 0x11 log;
          log = outb 0xA0 0x11 log;
          log = outb 0x21 0x20 log;
          log = outb 0xA1 0x28 log;
          log = outb 0x21 4 log;
          log = outb 0xA1 2 log;
          log = outb 0x21 0x01 log;
          log = outb 0xA1 0x01 log;
          log = outb 0x21 a1 log
      in outb 0xA1 a2 log)"

text \<open>
  \<^verbatim>\<open>pic_unmask_keyboard\<close>. In \<^verbatim>\<open>mask &= ~(1 << 1)\<close> the byte is promoted to a 32-bit
  \<^verbatim>\<open>int\<close>, and the result is cut back to a byte.
\<close>

definition pic_unmask_keyboard :: "port_in \<Rightarrow> port_log \<Rightarrow> port_log" where
  "pic_unmask_keyboard inb log =
     (let mask = inb 0x21;
          mask = (ucast ((ucast mask :: u32) AND NOT (push_bit 1 1)) :: u8)
      in outb 0x21 mask log)"

subsection \<open>VGA text console\<close>

abbreviation VGA_WIDTH :: nat where "VGA_WIDTH \<equiv> 80"
abbreviation VGA_HEIGHT :: nat where "VGA_HEIGHT \<equiv> 25"

text \<open>
  The console globals. \<open>vga_buffer\<close> is the grid of \<open>VGA_WIDTH * VGA_HEIGHT\<close> cells that
  the pointer \<^verbatim>\<open>vga_buffer\<close> addresses; \<open>vga_ports\<close> holds the bytes written to the
  cursor registers. A C store \<^verbatim>\<open>vga_buffer[idx] = v\<close> with \<open>idx\<close> outside the grid
  writes memory that is not a cell: the model records it in \<open>vga_oob\<close>.
\<close>

record console =
  vga_buffer :: "u16 list"
  term_row :: u8
  term_col :: u8
  term_color :: u8
  vga_ports :: port_log
  vga_oob :: bool

definition vga_store :: "nat \<Rightarrow> u16 \<Rightarrow> console \<Rightarrow> console" where
  "vga_store idx v t =
     (if idx < VGA_WIDTH * VGA_HEIGHT
      then t\<lparr>vga_buffer := (vga_buffer t)[idx := v]\<rparr>
      else t\<lparr>vga_oob := True\<rparr>)"

text \<open>
  A cell: \<^verbatim>\<open>(uint16_t)c | ((uint16_t)color << 8)\<close>. \<^verbatim>\<open>char\<close> is signed on x86, so the
  conversion of \<open>c\<close> extends its sign.
\<close>

definition vga_cell :: "char \<Rightarrow> u8 \<Rightarrow> u16" where
  "vga_cell c color = scast (of_char c :: u8) OR push_bit 8 (ucast color)"

definition update_cursor :: "console \<Rightarrow> console" where
  "update_cursor t =
     (let pos = (of_nat (unat (term_row t) * VGA_WIDTH + unat (term_col t)) :: u16);
          log = outb 0x3D4 0x0F (vga_ports t);
          log = outb 0x3D5 (ucast (pos AND 0xFF)) log;
          log = outb 0x3D4 0x0E log;
          log = outb 0x3D5 (ucast (drop_bit 8 pos AND 0xFF)) log
      in t\<lparr>vga_ports := log\<rparr>)"

definition vga_putat :: "char \<Rightarrow> u8 \<Rightarrow> u8 \<Rightarrow> u8 \<Rightarrow> console \<Rightarrow> console" where
  "vga_putat c color row col t =
     (let idx = (of_nat (unat row * VGA_WIDTH + unat col) :: u16)
      in vga_store (unat idx) (vga_cell c color) t)"

text \<open>\<^verbatim>\<open>vga_scroll\<close>: the two nested loops copy cell by cell, then the last line is blanked.\<close>

definition vga_scroll :: "console \<Rightarrow> console" where
  "vga_scroll t =
     (let t = fold (\<lambda>r. fold (\<lambda>c t. vga_store (r * VGA_WIDTH + c)
                                      (vga_buffer t ! ((r + 1) * VGA_WIDTH + c)) t)
                           [0..<VGA_WIDTH])
                [0..<VGA_HEIGHT - 1] t;
          blank = vga_cell (CHR '' '') (term_color t)
      in fold (\<lambda>c. vga_store ((VGA_HEIGHT - 1) * VGA_WIDTH + c) blank) [0..<VGA_WIDTH] t)"

text \<open>
  \<^verbatim>\<open>vga_putc\<close>. \<^verbatim>\<open>++term_row\<close> and \<^verbatim>\<open>++term_col\<close> are increments of a \<^verbatim>\<open>uint8_t\<close>
  (they wrap at 256); the comparisons are on the incremented value.
\<close>

definition vga_putc :: "char \<Rightarrow> console \<Rightarrow> console" where
  "vga_putc c t =
     update_cursor
      (if c = CHR 0x0A then
         (let t = t\<lparr>term_col := 0\<rparr>;
              t = t\<lparr>term_row := term_row t + 1\<rparr>
          in if unat (term_row t) = VGA_HEIGHT
             then vga_scroll (t\<lparr>term_row := of_nat (VGA_HEIGHT - 1)\<rparr>) else t)
       else if c = CHR 0x0D then t\<lparr>term_col := 0\<rparr>
       else if c = CHR 0x08 then
         (if 0 < unat (term_col t)
          then (let t = t\<lparr>term_col := term_col t - 1\<rparr>
                in vga_putat (CHR '' '') (term_color t) (term_row t) (term_col t) t)
          else t)
       else
         (let t = vga_putat c (term_color t) (term_row t) (term_col t) t;
              t = t\<lparr>term_col := term_col t + 1\<rparr>
          in if VGA_WIDTH \<le> unat (term_col t)
             then (let t = t\<lparr>term_col := 0\<rparr>;
                       t = t\<lparr>term_row := term_row t + 1\<rparr>
                   in if unat (term_row t) = VGA_HEIGHT
                      then vga_scroll (t\<lparr>term_row := of_nat (VGA_HEIGHT - 1)\<rparr>) else t)
             else t))"

text \<open>
  A C string is modelled by the list of its characters before the terminator;
  \<open>str_at s k\<close> is \<^verbatim>\<open>s[k]\<close>, the terminator at \<open>k = length s\<close>. The code never reads
  a string past its terminator.
\<close>

definition str_at :: "string \<Rightarrow> nat \<Rightarrow> char" where
  "str_at s k = (if k < length s then s ! k else NUL)"

definition vga_puts :: "string \<Rightarrow> console \<Rightarrow> console" where
  "vga_puts s t = fold vga_putc s t"

definition vga_clear :: "console \<Rightarrow> console" where
  "vga_clear t =
     (let blank = vga_cell (CHR '' '') (term_color t);
          t = fold (\<lambda>i. vga_store i blank) [0..<VGA_WIDTH * VGA_HEIGHT] t;
          t = t\<lparr>term_row := 0, term_col := 0\<rparr>
      in update_cursor t)"

subsection \<open>Integer formatting and \<^verbatim>\<open>kprintf\<close>\<close>

text \<open>
  The digit loop of \<^verbatim>\<open>kputu\<close>: \<open>buf\<close> holds \<^verbatim>\<open>buf[0..i-1]\<close>. The arithmetic is
  unsigned 32-bit (\<^verbatim>\<open>base\<close> is converted to \<^verbatim>\<open>uint32_t\<close>), and the digit is cut to a
  \<^verbatim>\<open>char\<close>. Division by zero traps and a 34th digit would be written past \<^verbatim>\<open>buf[33]\<close>:
  both are \<open>None\<close>, as is a loop that never ends.
\<close>

partial_function (option) kputu_loop :: "u32 \<Rightarrow> u32 \<Rightarrow> char list \<Rightarrow> char list option" where
  "kputu_loop val base buf =
     (if val = 0 then Some buf
      else if base = 0 then None
      else if 33 \<le> length buf then None
      else
        let d = val mod base
        in kputu_loop (val div base) base
             (buf @ [char_of (unat (if d < 10 then 48 + d else 97 + d - 10))]))"

text \<open>\<^verbatim>\<open>while (i--) vga_putc(buf[i])\<close> emits the buffer from its last digit to its first.\<close>

definition kputu :: "u32 \<Rightarrow> int \<Rightarrow> console \<Rightarrow> console option" where
  "kputu val base t =
     (if val = 0 then Some (vga_putc (CHR ''0'') t)
      else
        (case kputu_loop val (word_of_int base) [] of
           None \<Rightarrow> None
         | Some buf \<Rightarrow> Some (fold vga_putc (rev buf) t)))"

text \<open>
  \<^verbatim>\<open>kputi\<close>: \<open>val\<close> is an \<^verbatim>\<open>int32_t\<close>, read with \<open>sint\<close>. The negation \<^verbatim>\<open>-val\<close> is
  taken in two's complement, as the x86 \<^verbatim>\<open>neg\<close> instruction computes it (for the most
  negative value the C standard leaves it undefined).
\<close>

definition kputi :: "u32 \<Rightarrow> int \<Rightarrow> console \<Rightarrow> console option" where
  "kputi val base t =
     (if sint val < 0 then kputu (- val) base (vga_putc (CHR ''-'') t)
      else kputu val base t)"

text \<open>
  The variable arguments of \<^verbatim>\<open>kprintf\<close>: a string pointer (\<open>None\<close> is the null pointer)
  or a 32-bit value. Fetching an argument that is missing or of the other kind is
  undefined in C: \<open>None\<close>. So is the read past the terminator after a \<^verbatim>\<open>%\<close> that ends
  the format.
\<close>

datatype karg = ArgStr "string option" | ArgInt u32

fun kprintf :: "string \<Rightarrow> karg list \<Rightarrow> console \<Rightarrow> console option" where
  "kprintf [] args t = Some t"
| "kprintf (c # fmt) args t =
     (if c \<noteq> CHR ''%'' then kprintf fmt args (vga_putc c t)
      else
        (case fmt of
           [] \<Rightarrow> None
         | f # fmt' \<Rightarrow>
             if f = CHR ''s'' then
               (case args of
                  ArgStr s # args' \<Rightarrow>
                    kprintf fmt' args' (vga_puts (case s of Some s \<Rightarrow> s | None \<Rightarrow> ''(null)'') t)
                | _ \<Rightarrow> None)
             else if f = CHR ''d'' then
               (case args of
                  ArgInt v # args' \<Rightarrow>
                    (case kputi v 10 t of None \<Rightarrow> None | Some t \<Rightarrow> kprintf fmt' args' t)
                | _ \<Rightarrow> None)
             else if f = CHR ''u'' then
               (case args of
                  ArgInt v # args' \<Rightarrow>
                    (case kputu v 10 t of None \<Rightarrow> None | Some t \<Rightarrow> kprintf fmt' args' t)
                | _ \<Rightarrow> None)
             else if f = CHR ''x'' then
               (case args of
                  ArgInt v # args' \<Rightarrow>
                    (case kputu v 16 t of None \<Rightarrow> None | Some t \<Rightarrow> kprintf fmt' args' t)
                | _ \<Rightarrow> None)
             else if f = CHR ''c'' then
               (case args of
                  ArgInt v # args' \<Rightarrow> kprintf fmt' args' (vga_putc (char_of (unat v)) t)
                | _ \<Rightarrow> None)
             else kprintf fmt' args (vga_putc f (vga_putc (CHR ''%'') t))))"

declare kprintf.simps [simp del]

text \<open>
  The digits the specification asks for: repeated division by the base, least
  significant digit first, then the characters \<open>0..9\<close>, \<open>a..\<close> for them.
\<close>

function digits_lsf :: "nat \<Rightarrow> nat \<Rightarrow> nat list" where
  "digits_lsf b n = (if n = 0 \<or> b < 2 then [] else n mod b # digits_lsf b (n div b))"
  by pat_completeness auto
termination
  by (relation "measure (\<lambda>(b, n). n)") auto

declare digits_lsf.simps [simp del]

definition digit_char :: "nat \<Rightarrow> char" where
  "digit_char d = char_of (if d < 10 then 48 + d else 97 + d - 10)"

subsection \<open>In-memory file store\<close>

abbreviation MAX_FILES :: nat where "MAX_FILES \<equiv> 16"
abbreviation MAX_NAME :: nat where "MAX_NAME \<equiv> 16"
abbreviation MAX_FILE_SIZE :: nat where "MAX_FILE_SIZE \<equiv> 512"

text \<open>
  \<^verbatim>\<open>struct file_entry\<close>; \<open>name\<close> is an array of \<open>MAX_NAME\<close> characters and \<open>data\<close> one of
  \<open>MAX_FILE_SIZE\<close>. The table \<^verbatim>\<open>files\<close> is a list of \<open>MAX_FILES\<close> entries.
\<close>

record file_entry =
  name :: "char list"
  used :: int
  size_e :: int
  data :: "char list"

type_synonym files = "file_entry list"

text \<open>
  \<^verbatim>\<open>files[i].name[k]\<close>. The scan of \<^verbatim>\<open>fs_find\<close> can reach \<open>k = MAX_NAME\<close> when the array
  holds no terminator; that read falls on the byte after the array, the low byte of
  \<^verbatim>\<open>used\<close>.
\<close>

definition name_at :: "file_entry \<Rightarrow> nat \<Rightarrow> char" where
  "name_at e k = (if k < MAX_NAME then name e ! k else char_of (used e))"

text \<open>The \<^verbatim>\<open>while\<close> loop of \<^verbatim>\<open>fs_find\<close>, from position \<open>k\<close>; it returns the final \<open>k\<close>.\<close>

function fs_find_scan :: "file_entry \<Rightarrow> string \<Rightarrow> nat \<Rightarrow> nat" where
  "fs_find_scan e nm k =
     (if k < MAX_NAME \<and> name_at e k \<noteq> NUL \<and> str_at nm k \<noteq> NUL \<and> name_at e k = str_at nm k
      then fs_find_scan e nm (Suc k) else k)"
  by pat_completeness auto
termination
  by (relation "measure (\<lambda>(e, nm, k). MAX_NAME - k)") auto

declare fs_find_scan.simps [simp del]

definition fs_match :: "file_entry \<Rightarrow> string \<Rightarrow> bool" where
  "fs_match e nm = (let k = fs_find_scan e nm 0 in name_at e k = NUL \<and> str_at nm k = NUL)"

text \<open>\<^verbatim>\<open>fs_find\<close>: the first used slot whose name matches, or \<open>-1\<close>.\<close>

definition fs_find :: "string \<Rightarrow> files \<Rightarrow> int" where
  "fs_find nm fs =
     (case find (\<lambda>i. used (fs ! i) \<noteq> 0 \<and> fs_match (fs ! i) nm) [0..<MAX_FILES] of
        None \<Rightarrow> - 1
      | Some i \<Rightarrow> int i)"

text \<open>
  The name loop of \<^verbatim>\<open>fs_create\<close> (and of \<^verbatim>\<open>fs_init\<close>) from position \<open>j\<close>, with the
  terminator it stores at the end.
\<close>

function fs_name_copy :: "string \<Rightarrow> nat \<Rightarrow> char list \<Rightarrow> char list" where
  "fs_name_copy nm j arr =
     (if j < MAX_NAME - 1 \<and> str_at nm j \<noteq> NUL
      then fs_name_copy nm (Suc j) (arr[j := str_at nm j])
      else arr[j := NUL])"
  by pat_completeness auto
termination
  by (relation "measure (\<lambda>(nm, j, arr). MAX_NAME - 1 - j)") auto

declare fs_name_copy.simps [simp del]

definition fs_create :: "string \<Rightarrow> files \<Rightarrow> int \<times> files" where
  "fs_create nm fs =
     (if 0 \<le> fs_find nm fs then (- 1, fs)
      else
        (case find (\<lambda>i. used (fs ! i) = 0) [0..<MAX_FILES] of
           None \<Rightarrow> (- 1, fs)
         | Some i \<Rightarrow>
             (int i, fs[i := (fs ! i)\<lparr>used := 1, size_e := 0,
                                     name := fs_name_copy nm 0 (name (fs ! i))\<rparr>])))"

text \<open>
  The copy loop of \<^verbatim>\<open>fs_write\<close> from position \<open>n\<close>: \<open>src\<close> is the memory \<^verbatim>\<open>data\<close> points
  to, \<open>dst\<close> the slot's buffer. It returns the final \<open>n\<close> and the buffer.
\<close>

function fs_write_copy :: "char list \<Rightarrow> int \<Rightarrow> nat \<Rightarrow> char list \<Rightarrow> nat \<times> char list" where
  "fs_write_copy src len n dst =
     (if int n < len \<and> n < MAX_FILE_SIZE
      then fs_write_copy src len (Suc n) (dst[n := src ! n])
      else (n, dst))"
  by pat_completeness auto
termination
  by (relation "measure (\<lambda>(src, len, n, dst). MAX_FILE_SIZE - n)") auto

declare fs_write_copy.simps [simp del]

definition fs_write :: "string \<Rightarrow> char list \<Rightarrow> int \<Rightarrow> files \<Rightarrow> int \<times> files" where
  "fs_write nm src len fs =
     (let idx = fs_find nm fs;
          (idx, fs) = (if idx < 0 then fs_create nm fs else (idx, fs))
      in if idx < 0 then (- 1, fs)
         else
           (let (n, d) = fs_write_copy src len 0 (data (fs ! nat idx))
            in (int n, fs[nat idx := (fs ! nat idx)\<lparr>data := d, size_e := int n\<rparr>])))"

definition fs_read_to_console :: "string \<Rightarrow> files \<Rightarrow> console \<Rightarrow> int \<times> console" where
  "fs_read_to_console nm fs t =
     (let idx = fs_find nm fs
      in if idx < 0 then (- 1, t)
         else
           (let e = fs ! nat idx
            in (size_e e, fold (\<lambda>i. vga_putc (data e ! i)) [0..<nat (size_e e)] t)))"

text \<open>
  The string a character array holds: the characters before the first terminator.
  Every name the code stores has its terminator inside the array.
\<close>

definition cstr :: "char list \<Rightarrow> string" where
  "cstr arr = takeWhile (\<lambda>c. c \<noteq> NUL) arr"

definition fs_list :: "files \<Rightarrow> console \<Rightarrow> console option" where
  "fs_list fs t =
     fold (\<lambda>i r. case r of
                    None \<Rightarrow> None
                  | Some t \<Rightarrow>
                      if used (fs ! i) \<noteq> 0
                      then kprintf ''  %s (%d bytes)\<newline>''
                             [ArgStr (Some (cstr (name (fs ! i)))),
                              ArgInt (word_of_int (size_e (fs ! i)))] t
                      else Some t)
          [0..<MAX_FILES] (kprintf ''Files:\<newline>'' [] t)"

definition fs_remove :: "string \<Rightarrow> files \<Rightarrow> int \<times> files" where
  "fs_remove nm fs =
     (let idx = fs_find nm fs
      in if idx < 0 then (- 1, fs)
         else (0, fs[nat idx := (fs ! nat idx)\<lparr>used := 0\<rparr>]))"

text \<open>The data loop of \<^verbatim>\<open>fs_init\<close>, which stops at the terminator of \<open>w\<close>.\<close>

function fs_init_copy :: "string \<Rightarrow> nat \<Rightarrow> char list \<Rightarrow> nat \<times> char list" where
  "fs_init_copy w n dst =
     (if str_at w n \<noteq> NUL \<and> n < MAX_FILE_SIZE
      then fs_init_copy w (Suc n) (dst[n := str_at w n])
      else (n, dst))"
  by pat_completeness auto
termination
  by (relation "measure (\<lambda>(w, n, dst). MAX_FILE_SIZE - n)") auto

declare fs_init_copy.simps [simp del]

definition fs_init :: "files \<Rightarrow> files" where
  "fs_init fs =
     (let fs = fold (\<lambda>i fs. fs[i := (fs ! i)\<lparr>used := 0\<rparr>]) [0..<MAX_FILES] fs;
          w = ''welcome: This is MiniOS (in-memory FS)\<newline>''
      in case find (\<lambda>i. used (fs ! i) = 0) [0..<MAX_FILES] of
           None \<Rightarrow> fs
         | Some idx \<Rightarrow>
             (let (n, d) = fs_init_copy w 0 (data (fs ! idx))
              in fs[idx := (fs ! idx)\<lparr>used := 1, data := d, size_e := int n,
                                        name := fs_name_copy ''welcome'' 0 (name (fs ! idx))\<rparr>]))"

text \<open>
  The table at boot: static storage, all zero. \<^verbatim>\<open>kernel_main\<close> runs \<^verbatim>\<open>fs_init\<close> on it
  once, before the first command.
\<close>

definition files_zero :: files where
  "files_zero =
     replicate MAX_FILES
       \<lparr>name = replicate MAX_NAME NUL, used = 0, size_e = 0, data = replicate MAX_FILE_SIZE NUL\<rparr>"

text \<open>
  The shape the C types give the table, and the state of the names: every array holds a
  terminator. \<^verbatim>\<open>fs_init\<close> establishes both and every operation keeps them.
\<close>

definition fs_shape :: "files \<Rightarrow> bool" where
  "fs_shape fs \<longleftrightarrow>
     length fs = MAX_FILES \<and>
     list_all (\<lambda>e. length (name e) = MAX_NAME \<and> length (data e) = MAX_FILE_SIZE) fs"

definition fs_names_ok :: "files \<Rightarrow> bool" where
  "fs_names_ok fs \<longleftrightarrow> list_all (\<lambda>e. NUL \<in> set (name e)) fs"

text \<open>What \<^verbatim>\<open>fs_list\<close> shows of the table: name and size of each used slot, in slot order.\<close>

definition fs_entries :: "files \<Rightarrow> (string \<times> int) list" where
  "fs_entries fs = map (\<lambda>e. (cstr (name e), size_e e)) (filter (\<lambda>e. used e \<noteq> 0) fs)"

subsection \<open>Line input, editor and command interpreter\<close>

abbreviation INPUT_BUF :: int where "INPUT_BUF \<equiv> 128"

text \<open>
  \<^verbatim>\<open>read_line\<close>. The third argument is the keyboard input still to come: the characters
  that the successive calls of \<^verbatim>\<open>keyboard_getchar_irq\<close> return. When it runs out the
  call waits for ever: \<open>None\<close>. \<open>buf\<close> holds \<^verbatim>\<open>buf[0..idx-1]\<close>; the result is the string
  that the terminated buffer holds, with the input left and the console.
\<close>

fun read_line :: "int \<Rightarrow> char list \<Rightarrow> char list \<Rightarrow> console \<Rightarrow>
    (string \<times> char list \<times> console) option" where
  "read_line bufsize buf [] t = None"
| "read_line bufsize buf (c # inp) t =
     (if c = CHR 0x0A \<or> c = CHR 0x0D then Some (cstr buf, inp, vga_putc (CHR 0x0A) t)
      else if c = CHR 0x08 then
        (if 0 < length buf then read_line bufsize (butlast buf) inp (vga_putc (CHR 0x08) t)
         else read_line bufsize buf inp t)
      else
        (if int (length buf) < bufsize - 1 then read_line bufsize (buf @ [c]) inp (vga_putc c t)
         else read_line bufsize buf inp t))"

text \<open>
  What the shell works on: the file table, the console, and the keyboard input still
  to come.
\<close>

record kstate =
  files :: files
  con :: console
  keys :: "char list"

text \<open>
  The editor. \<open>buf\<close> holds \<^verbatim>\<open>buf[0..len-1]\<close> of the local array, so \<^verbatim>\<open>len\<close> is its
  length. \<open>nano_append\<close> is the loop that appends the characters of a line.
\<close>

fun nano_append :: "string \<Rightarrow> char list \<Rightarrow> console \<Rightarrow> (char list \<times> console) option" where
  "nano_append [] buf t = Some (buf, t)"
| "nano_append (c # line) buf t =
     (if length buf < MAX_FILE_SIZE then nano_append line (buf @ [c]) t
      else map_option (Pair buf) (kprintf ''Buffer full\<newline>'' [] t))"

text \<open>
  The body of the editor loop after \<^verbatim>\<open>read_line\<close>, for the line read. The result says
  whether the loop goes on (\<^verbatim>\<open>continue\<close>) or ends (\<^verbatim>\<open>break\<close>).
\<close>

definition nano_line :: "string \<Rightarrow> string \<Rightarrow> char list \<Rightarrow> kstate \<Rightarrow>
    (bool \<times> char list \<times> kstate) option" where
  "nano_line filename line buf s =
     (if str_at line 0 = NUL then Some (True, buf, s)
      else if str_at line 0 = CHR ''.'' then
        (if str_at line 1 = NUL then Some (True, buf, s)
         else if str_at line 1 = CHR ''h'' \<and> str_at line 2 = CHR ''e'' \<and> str_at line 3 = CHR ''l'' \<and>
                 str_at line 4 = CHR ''p'' \<and> str_at line 5 = NUL then
           (case kprintf ''Editor commands:\<newline>'' [] (con s) of None \<Rightarrow> None | Some t \<Rightarrow>
            case kprintf ''  .help - show this message\<newline>'' [] t of None \<Rightarrow> None | Some t \<Rightarrow>
            case kprintf ''  .save - save to file\<newline>'' [] t of None \<Rightarrow> None | Some t \<Rightarrow>
            case kprintf ''  .wq   - write and quit\<newline>'' [] t of None \<Rightarrow> None | Some t \<Rightarrow>
            case kprintf ''  .quit - quit without saving\<newline>'' [] t of None \<Rightarrow> None | Some t \<Rightarrow>
              Some (True, buf, s\<lparr>con := t\<rparr>))
         else if str_at line 1 = CHR ''s'' \<and> str_at line 2 = CHR ''a'' \<and> str_at line 3 = CHR ''v'' \<and>
                 str_at line 4 = CHR ''e'' \<and> str_at line 5 = NUL then
           (let (written, fs) = fs_write filename buf (int (length buf)) (files s)
            in case (if written < 0 then kprintf ''Save failed\<newline>'' [] (con s)
                     else kprintf ''Saved %d bytes\<newline>'' [ArgInt (word_of_int written)] (con s)) of
                 None \<Rightarrow> None
               | Some t \<Rightarrow> Some (True, buf, s\<lparr>files := fs, con := t\<rparr>))
         else if str_at line 1 = CHR ''w'' \<and> str_at line 2 = CHR ''q'' \<and> str_at line 3 = NUL then
           (let (written, fs) = fs_write filename buf (int (length buf)) (files s)
            in case (if written < 0 then kprintf ''Save failed\<newline>'' [] (con s)
                     else kprintf ''Saved %d bytes\<newline>'' [ArgInt (word_of_int written)] (con s)) of
                 None \<Rightarrow> None
               | Some t \<Rightarrow> Some (False, buf, s\<lparr>files := fs, con := t\<rparr>))
         else if str_at line 1 = CHR ''q'' \<and> str_at line 2 = NUL then
           (case kprintf ''Quit without saving\<newline>'' [] (con s) of
              None \<Rightarrow> None
            | Some t \<Rightarrow> Some (False, buf, s\<lparr>con := t\<rparr>))
         else
           (case kprintf ''Unknown editor command: %s\<newline>'' [ArgStr (Some line)] (con s) of
              None \<Rightarrow> None
            | Some t \<Rightarrow> Some (True, buf, s\<lparr>con := t\<rparr>)))
      else
        (case nano_append line buf (con s) of
           None \<Rightarrow> None
         | Some (buf, t) \<Rightarrow>
             if length buf < MAX_FILE_SIZE then Some (True, buf @ [CHR 0x0A], s\<lparr>con := t\<rparr>)
             else
               (case kprintf ''Buffer full, no newline\<newline>'' [] t of
                  None \<Rightarrow> None
                | Some t \<Rightarrow> Some (True, buf, s\<lparr>con := t\<rparr>))))"

text \<open>One turn of the loop: the prompt, \<^verbatim>\<open>read_line\<close>, then the body.\<close>

definition nano_turn :: "string \<Rightarrow> char list \<Rightarrow> kstate \<Rightarrow> (bool \<times> char list \<times> kstate) option" where
  "nano_turn filename buf s =
     (case kprintf ''edit> '' [] (con s) of
        None \<Rightarrow> None
      | Some t \<Rightarrow>
          (case read_line INPUT_BUF [] (keys s) t of
             None \<Rightarrow> None
           | Some (line, inp, t) \<Rightarrow> nano_line filename line buf (s\<lparr>con := t, keys := inp\<rparr>)))"

text \<open>
  Each turn consumes input, at least the line's end. The loop below recurses on that.
\<close>

lemma read_line_shorter:
  "read_line bufsize buf inp t = Some (line, inp', t') \<Longrightarrow> length inp' < length inp"
  by (induction bufsize buf inp t rule: read_line.induct) (auto split: if_splits)

lemma nano_line_keys:
  "nano_line filename line buf s = Some (go, buf', s') \<Longrightarrow> keys s' = keys s"
  by (auto simp: nano_line_def split: if_splits option.splits prod.splits)

lemma nano_turn_shorter:
  "nano_turn filename buf s = Some (go, buf', s') \<Longrightarrow> length (keys s') < length (keys s)"
  by (auto simp: nano_turn_def split: option.splits dest!: read_line_shorter nano_line_keys)

function nano_loop :: "string \<Rightarrow> char list \<Rightarrow> kstate \<Rightarrow> kstate option" where
  "nano_loop filename buf s =
     (case nano_turn filename buf s of
        None \<Rightarrow> None
      | Some (go, buf', s') \<Rightarrow> if go then nano_loop filename buf' s' else Some s')"
  by pat_completeness auto
termination
  by (relation "measure (\<lambda>(filename, buf, s). length (keys s))")
     (auto dest: nano_turn_shorter)

declare nano_loop.simps [simp del]

text \<open>
  \<^verbatim>\<open>nano_edit\<close>. The buffer is seeded with the first \<^verbatim>\<open>len\<close> bytes of the file; sizes in
  the table are never negative.
\<close>

definition nano_edit :: "string \<Rightarrow> kstate \<Rightarrow> kstate option" where
  "nano_edit filename s =
     (let idx = fs_find filename (files s);
          buf = (if 0 \<le> idx then
                   (let len = size_e (files s ! nat idx);
                        len = (if int MAX_FILE_SIZE < len then int MAX_FILE_SIZE else len)
                    in map (\<lambda>i. data (files s ! nat idx) ! i) [0..<nat len])
                 else [])
      in do {
        t \<leftarrow> kprintf ''--- nano: editing %s (max %d bytes) ---\<newline>''
               [ArgStr (Some filename), ArgInt (of_nat MAX_FILE_SIZE)] (con s);
        t \<leftarrow> kprintf ''Commands: .help .save .wq .quit\<newline>'' [] t;
        t \<leftarrow> (if 0 < length buf then do {
                 t \<leftarrow> kprintf ''--- current contents ---\<newline>'' [] t;
                 kprintf ''--- end ---\<newline>'' [] (fold vga_putc buf t)
               } else Some t);
        s \<leftarrow> nano_loop filename buf (s\<lparr>con := t\<rparr>);
        t \<leftarrow> kprintf ''Exiting editor\<newline>'' [] (con s);
        Some (s\<lparr>con := t\<rparr>)
      })"

definition skip_spaces :: "string \<Rightarrow> string" where
  "skip_spaces s = dropWhile (\<lambda>c. c = CHR '' '') s"

text \<open>The file-name loop of the \<^verbatim>\<open>write\<close> command: \<open>fname\<close> holds \<^verbatim>\<open>fname[0..fi-1]\<close>.\<close>

fun write_fname :: "string \<Rightarrow> char list \<Rightarrow> char list \<times> string" where
  "write_fname [] fname = (fname, [])"
| "write_fname (c # arg) fname =
     (if c \<noteq> CHR '' '' \<and> length fname < MAX_NAME - 1 then write_fname arg (fname @ [c])
      else (fname, c # arg))"

text \<open>
  \<^verbatim>\<open>run_command\<close>. \<open>p\<close> is the line after its leading spaces, \<^verbatim>\<open>p[k]\<close> is \<open>str_at p k\<close> and
  \<^verbatim>\<open>p + k\<close> is \<open>drop k p\<close>. The tests are those of the source, in its order.
\<close>

definition run_command :: "string \<Rightarrow> kstate \<Rightarrow> kstate option" where
  "run_command line s =
     (let p = skip_spaces line;
          say = (\<lambda>fmt args. map_option (\<lambda>t. s\<lparr>con := t\<rparr>) (kprintf fmt args (con s)))
      in
      if str_at p 0 = NUL then Some s
      else if str_at p 0 = CHR ''h'' \<and> str_at p 1 = CHR ''e'' \<and> str_at p 2 = CHR ''l'' \<and>
              str_at p 3 = CHR ''p'' \<and> str_at p 4 = NUL then
        do {
          t \<leftarrow> kprintf ''Available commands:\<newline>'' [] (con s);
          t \<leftarrow> kprintf ''  help           - show this message\<newline>'' [] t;
          t \<leftarrow> kprintf ''  clear          - clear the screen\<newline>'' [] t;
          t \<leftarrow> kprintf ''  echo <text>    - echo text\<newline>'' [] t;
          t \<leftarrow> kprintf ''  version        - show kernel version\<newline>'' [] t;
          t \<leftarrow> kprintf ''  ls             - list files\<newline>'' [] t;
          t \<leftarrow> kprintf ''  cat <file>     - show file contents\<newline>'' [] t;
          t \<leftarrow> kprintf ''  write <file> <text> - write text to file (overwrite)\<newline>'' [] t;
          t \<leftarrow> kprintf ''  touch <file>   - create empty file\<newline>'' [] t;
          t \<leftarrow> kprintf ''  rm <file>      - remove file\<newline>'' [] t;
          t \<leftarrow> kprintf ''  nano <file>    - edit/create a file with simple editor\<newline>'' [] t;
          Some (s\<lparr>con := t\<rparr>)
        }
      else if str_at p 0 = CHR ''n'' \<and> str_at p 1 = CHR ''a'' \<and> str_at p 2 = CHR ''n'' \<and>
              str_at p 3 = CHR ''o'' \<and> (str_at p 4 = NUL \<or> str_at p 4 = CHR '' '') then
        (let arg = skip_spaces (drop 4 p)
         in if str_at arg 0 \<noteq> NUL then nano_edit arg s
            else say ''Usage: nano <file>\<newline>'' [])
      else if str_at p 0 = CHR ''c'' \<and> str_at p 1 = CHR ''l'' \<and> str_at p 2 = CHR ''e'' \<and>
              str_at p 3 = CHR ''a'' \<and> str_at p 4 = CHR ''r'' \<and>
              (str_at p 5 = NUL \<or> str_at p 5 = CHR '' '') then
        Some (s\<lparr>con := vga_clear (con s)\<rparr>)
      else if str_at p 0 = CHR ''v'' \<and> str_at p 1 = CHR ''e'' \<and> str_at p 2 = CHR ''r'' \<and>
              str_at p 3 = CHR ''s'' \<and> str_at p 4 = CHR ''i'' \<and> str_at p 5 = CHR ''o'' \<and>
              str_at p 6 = CHR ''n'' \<and> (str_at p 7 = NUL \<or> str_at p 7 = CHR '' '') then
        say ''MiniOS version 0.2\<newline>'' []
      else if str_at p 0 = CHR ''e'' \<and> str_at p 1 = CHR ''c'' \<and> str_at p 2 = CHR ''h'' \<and>
              str_at p 3 = CHR ''o'' \<and> (str_at p 4 = NUL \<or> str_at p 4 = CHR '' '') then
        say ''%s\<newline>'' [ArgStr (Some (skip_spaces (drop 4 p)))]
      else if str_at p 0 = CHR ''l'' \<and> str_at p 1 = CHR ''s'' \<and>
              (str_at p 2 = NUL \<or> str_at p 2 = CHR '' '') then
        map_option (\<lambda>t. s\<lparr>con := t\<rparr>) (fs_list (files s) (con s))
      else if str_at p 0 = CHR ''c'' \<and> str_at p 1 = CHR ''a'' \<and> str_at p 2 = CHR ''t'' \<and>
              str_at p 3 = CHR '' '' then
        (let arg = skip_spaces (drop 4 p)
         in if str_at arg 0 \<noteq> NUL then
              (let (r, t) = fs_read_to_console arg (files s) (con s)
               in map_option (\<lambda>t. s\<lparr>con := t\<rparr>)
                    (if r < 0 then kprintf ''No such file: %s\<newline>'' [ArgStr (Some arg)] t
                     else kprintf ''\<newline>'' [] t))
            else say ''Usage: cat <file>\<newline>'' [])
      else if str_at p 0 = CHR ''t'' \<and> str_at p 1 = CHR ''o'' \<and> str_at p 2 = CHR ''u'' \<and>
              str_at p 3 = CHR ''c'' \<and> str_at p 4 = CHR ''h'' \<and> str_at p 5 = CHR '' '' then
        (let arg = skip_spaces (drop 6 p)
         in if str_at arg 0 \<noteq> NUL then
              (let (r, fs) = fs_create arg (files s)
               in if r < 0
                  then map_option (\<lambda>t. s\<lparr>files := fs, con := t\<rparr>)
                         (kprintf ''Cannot create file: %s\<newline>'' [ArgStr (Some arg)] (con s))
                  else Some (s\<lparr>files := fs\<rparr>))
            else say ''Usage: touch <file>\<newline>'' [])
      else if str_at p 0 = CHR ''r'' \<and> str_at p 1 = CHR ''m'' \<and> str_at p 2 = CHR '' '' then
        (let arg = skip_spaces (drop 3 p)
         in if str_at arg 0 \<noteq> NUL then
              (let (r, fs) = fs_remove arg (files s)
               in if r < 0
                  then map_option (\<lambda>t. s\<lparr>files := fs, con := t\<rparr>)
                         (kprintf ''No such file: %s\<newline>'' [ArgStr (Some arg)] (con s))
                  else Some (s\<lparr>files := fs\<rparr>))
            else say ''Usage: rm <file>\<newline>'' [])
      else if str_at p 0 = CHR ''w'' \<and> str_at p 1 = CHR ''r'' \<and> str_at p 2 = CHR ''i'' \<and>
              str_at p 3 = CHR ''t'' \<and> str_at p 4 = CHR ''e'' \<and> str_at p 5 = CHR '' '' then
        (let arg = skip_spaces (drop 6 p)
         in if str_at arg 0 = NUL then say ''Usage: write <file> <text>\<newline>'' []
            else
              (let (fname, arg) = write_fname arg [];
                   arg = skip_spaces arg
               in if str_at fname 0 = NUL then say ''Invalid file name\<newline>'' []
                  else if str_at arg 0 = NUL then say ''No text provided\<newline>'' []
                  else
                    (let len = int (length arg);
                         (written, fs) = fs_write fname arg len (files s)
                     in map_option (\<lambda>t. s\<lparr>files := fs, con := t\<rparr>)
                          (if written < 0 then kprintf ''Failed to write file\<newline>'' [] (con s)
                           else kprintf ''Wrote %d bytes to %s\<newline>''
                                  [ArgInt (word_of_int written), ArgStr (Some fname)] (con s)))))
      else say ''Unknown command: %s\<newline>'' [ArgStr (Some p)])"

subsection \<open>Predicates used in the console proofs\<close>

text \<open>What a store, and a run of stores, leaves alone.\<close>

definition same_cursor :: "console \<Rightarrow> console \<Rightarrow> bool" where
  "same_cursor t t' \<longleftrightarrow>
     term_row t' = term_row t \<and> term_col t' = term_col t \<and> term_color t' = term_color t \<and>
     vga_ports t' = vga_ports t \<and> length (vga_buffer t') = length (vga_buffer t)"

definition cursor_in_grid :: "console \<Rightarrow> bool" where
  "cursor_in_grid t \<longleftrightarrow> unat (term_row t) < VGA_HEIGHT \<and> unat (term_col t) < VGA_WIDTH"

subsection \<open>The file table as a list of optional entries\<close>

text \<open>
  The proofs read the table through \<open>fs_view\<close>: per slot, the name and size when the
  slot is used. \<open>v_find\<close>, \<open>v_create\<close> and \<open>v_remove\<close> are the specification's
  \<open>find\<close>, \<open>create\<close> and \<open>remove\<close> on that view; the table operations are shown to
  refine them.
\<close>

type_synonym fview = "(string \<times> int) option list"

definition fs_view :: "files \<Rightarrow> fview" where
  "fs_view fs = map (\<lambda>e. if used e \<noteq> 0 then Some (cstr (name e), size_e e) else None) fs"

definition v_find :: "string \<Rightarrow> fview \<Rightarrow> int" where
  "v_find nm v =
     (case find (\<lambda>i. map_option fst (v ! i) = Some nm) [0..<MAX_FILES] of
        None \<Rightarrow> - 1
      | Some i \<Rightarrow> int i)"

definition v_create :: "string \<Rightarrow> fview \<Rightarrow> int \<times> fview" where
  "v_create nm v =
     (if 0 \<le> v_find nm v then (- 1, v)
      else
        (case find (\<lambda>i. v ! i = None) [0..<MAX_FILES] of
           None \<Rightarrow> (- 1, v)
         | Some i \<Rightarrow> (int i, v[i := Some (take (MAX_NAME - 1) nm, 0)])))"

definition v_remove :: "string \<Rightarrow> fview \<Rightarrow> int \<times> fview" where
  "v_remove nm v =
     (let idx = v_find nm v
      in if idx < 0 then (- 1, v) else (0, v[nat idx := None]))"

definition fs_ok :: "files \<Rightarrow> bool" where
  "fs_ok fs \<longleftrightarrow> fs_shape fs \<and> fs_names_ok fs"

text \<open>
  The table of the running kernel after \<open>create x\<close>, \<open>create y\<close>, \<open>remove x\<close>.
\<close>

definition files_x_y_rm :: files where
  "files_x_y_rm =
     (let fs = fs_init files_zero;
          fs = snd (fs_create ''x'' fs);
          fs = snd (fs_create ''y'' fs)
      in snd (fs_remove ''x'' fs))"

subsection \<open>Words used in the editor proofs\<close>

text \<open>
  The decimal digits of a number as \<^verbatim>\<open>kputu\<close> emits them, and what a save reports for
  the count \<open>r\<close> that \<^verbatim>\<open>fs_write\<close> returned.
\<close>

definition decimal :: "nat \<Rightarrow> string" where
  "decimal n = (if n = 0 then ''0'' else rev (map digit_char (digits_lsf 10 n)))"

definition save_msg :: "int \<Rightarrow> string" where
  "save_msg r =
     (if r < 0 then ''Save failed\<newline>'' else ''Saved '' @ decimal (nat r) @ '' bytes\<newline>'')"

text \<open>
  An input line of the editor that is not text to append and neither saves nor ends the
  session: the empty line, or a line that starts with a dot other than \<open>.save\<close>, \<open>.wq\<close>
  and \<open>.q\<close>.
\<close>

definition other_command :: "string \<Rightarrow> bool" where
  "other_command line \<longleftrightarrow>
     NUL \<notin> set line \<and> (line = [] \<or> hd line = CHR ''.'') \<and>
     line \<noteq> ''.save'' \<and> line \<noteq> ''.wq'' \<and> line \<noteq> ''.q''"

text \<open>
  A table of the running kernel with one slot left: after \<^verbatim>\<open>fs_init\<close>, fourteen files
  are created (\<open>touch a\<close>, ..., \<open>touch n\<close>).
\<close>

definition files_one_free :: files where
  "files_one_free =
     fold (\<lambda>nm fs. snd (fs_create nm fs))
       [''a'', ''b'', ''c'', ''d'', ''e'', ''f'', ''g'', ''h'', ''i'', ''j'', ''k'', ''l'', ''m'', ''n'']
       (fs_init files_zero)"

text \<open>What \<open>fs_write\<close> does to the view when the \<open>len\<close> bytes fit the data buffer.\<close>

definition v_write :: "string \<Rightarrow> int \<Rightarrow> fview \<Rightarrow> int \<times> fview" where
  "v_write nm len v =
     (let (i, v1) = (if v_find nm v < 0 then v_create nm v else (v_find nm v, v))
      in if i < 0 then (- 1, v1)
         else (len, v1[nat i := map_option (\<lambda>(n, sz). (n, len)) (v1 ! nat i)]))"

text \<open>
  The console as \<^verbatim>\<open>kernel_main\<close> leaves it before the first prompt is not needed in
  full: a cleared screen in the initial colour stands for it.
\<close>

definition console_boot :: console where
  "console_boot =
     vga_clear \<lparr>vga_buffer = replicate (VGA_WIDTH * VGA_HEIGHT) 0, term_row = 0, term_col = 0,
                term_color = 0x07, vga_ports = [], vga_oob = False\<rparr>"

section \<open>The keyboard ring is a FIFO queue\<close>

lemma c_mod_nonneg: "0 \<le> a \<Longrightarrow> c_mod a 256 = a mod 256"
  by (simp add: c_mod_def sgn_if)

lemma kbuf_wait_nonempty: "kbuf_head q \<noteq> kbuf_tail q \<Longrightarrow> kbuf_wait q = Some q"
  by (subst kbuf_wait.simps) simp

lemma kbuf_wait_empty: "kbuf_head q = kbuf_tail q \<Longrightarrow> kbuf_wait q = None"
proof (rule ccontr)
  assume e: "kbuf_head q = kbuf_tail q" and "kbuf_wait q \<noteq> None"
  then obtain y where y: "kbuf_wait q = Some y" by auto
  have "kbuf_head q \<noteq> kbuf_tail q"
    by (rule kbuf_wait.raw_induct [where P = "\<lambda>q y. kbuf_head q \<noteq> kbuf_tail q", OF _ y])
       (auto split: if_splits)
  with e show False by simp
qed

lemma keyboard_handler_key:
  "keyboard_handler inb q =
     (case key_char (inb 0x60) of
        None \<Rightarrow> q
      | Some c \<Rightarrow>
          if c_mod (kbuf_head q + 1) KBUF_SIZE \<noteq> kbuf_tail q
          then q\<lparr>kbuf := (kbuf q)[nat (kbuf_head q) := c],
                 kbuf_head := c_mod (kbuf_head q + 1) KBUF_SIZE\<rparr>
          else q)"
  by (simp add: keyboard_handler_def key_char_def Let_def)

lemma kq_count_lt: "kq_count q < 256"
  by (simp add: kq_count_def nat_less_iff)

lemma length_kq_list [simp]: "length (kq_list q) = kq_count q"
  by (simp add: kq_list_def)

lemma mod256_sub:
  assumes "0 \<le> h" "h < 256" "0 \<le> t" "t < 256"
  shows "(h - t) mod 256 = (if t \<le> h then h - t else h - t + (256::int))"
proof (cases "t \<le> h")
  case True
  with assms show ?thesis by (simp add: mod_pos_pos_trivial)
next
  case False
  with assms have "0 \<le> h - t + 256" "h - t + 256 < 256" by simp_all
  then have "(h - t + 256) mod 256 = h - t + 256" by (rule mod_pos_pos_trivial)
  with mod_add_self2 [of "h - t" 256, symmetric]
  have "(h - t) mod 256 = h - t + 256" by (rule trans)
  with False show ?thesis by (simp only: if_False)
qed

lemma mod256_add:
  assumes "0 \<le> a" "a < 256" "0 \<le> b" "b < 256"
  shows "(a + b) mod 256 = (if a + b < 256 then a + b else a + b - (256::int))"
proof (cases "a + b < 256")
  case True
  with assms show ?thesis by (simp add: mod_pos_pos_trivial)
next
  case False
  with assms have "0 \<le> a + b - 256" "a + b - 256 < 256" by simp_all
  then have "(a + b - 256) mod 256 = a + b - 256" by (rule mod_pos_pos_trivial)
  moreover have "(a + b - 256 + 256) mod 256 = (a + b - 256) mod 256"
    by (rule mod_add_self2)
  ultimately have "(a + b) mod 256 = a + b - 256" by simp
  with False show ?thesis by (simp only: if_False)
qed

lemma push_ok:
  fixes q :: kq and c :: char
  assumes inv: "kq_inv q" and n: "kq_count q < 255"
  defines "q' \<equiv> q\<lparr>kbuf := (kbuf q)[nat (kbuf_head q) := c],
                 kbuf_head := c_mod (kbuf_head q + 1) KBUF_SIZE\<rparr>"
  shows "c_mod (kbuf_head q + 1) KBUF_SIZE \<noteq> kbuf_tail q"
    and "kq_inv q'" and "kq_list q' = kq_list q @ [c]"
proof -
  let ?h = "kbuf_head q" and ?t = "kbuf_tail q"
  from inv have r: "0 \<le> ?h" "?h < 256" "0 \<le> ?t" "?t < 256" "length (kbuf q) = 256"
    by (simp_all add: kq_inv_def)
  have cm: "c_mod (?h + 1) KBUF_SIZE = (if ?h + 1 < 256 then ?h + 1 else ?h + 1 - 256)"
    using r mod256_add [of ?h 1] by (simp add: c_mod_nonneg)
  have cq: "int (kq_count q) = (if ?t \<le> ?h then ?h - ?t else ?h - ?t + 256)"
    using r by (simp add: kq_count_def mod256_sub)
  show ne: "c_mod (?h + 1) KBUF_SIZE \<noteq> ?t"
    using r n cq unfolding cm by (auto split: if_splits)
  show "kq_inv q'"
    using r by (simp add: kq_inv_def q'_def cm)
  have "int (kq_count q') = int (kq_count q) + 1"
    using r n cq mod256_sub [of "kbuf_head q'" ?t]
    by (auto simp: kq_count_def q'_def cm split: if_splits)
  then have cnt: "kq_count q' = Suc (kq_count q)" by simp
  have idx: "(?t + int i) mod 256 = (if ?t + int i < 256 then ?t + int i else ?t + int i - 256)"
    if "i \<le> kq_count q" for i
    using r that kq_count_lt [of q] mod256_add [of ?t "int i"] by simp
  have old: "kbuf q' ! nat ((kbuf_tail q' + int i) mod 256) = kbuf q ! nat ((?t + int i) mod 256)"
    if "i < kq_count q" for i
  proof -
    from that have "int i < int (kq_count q)" by simp
    then have "(?t + int i) mod 256 \<noteq> ?h" using r cq idx [of i] that
      by (auto split: if_splits)
    moreover have "0 \<le> (?t + int i) mod 256" by simp
    ultimately have "nat ((?t + int i) mod 256) \<noteq> nat ?h" using r by simp
    then show ?thesis by (simp add: q'_def)
  qed
  have new: "kbuf q' ! nat ((kbuf_tail q' + int (kq_count q)) mod 256) = c"
  proof -
    have "(?t + int (kq_count q)) mod 256 = ?h" using r cq idx [of "kq_count q"]
      by (auto split: if_splits)
    then show ?thesis using r by (simp add: q'_def)
  qed
  show "kq_list q' = kq_list q @ [c]"
    unfolding kq_list_def cnt using old new by (simp add: q'_def)
qed

lemma pop_ok:
  assumes inv: "kq_inv q" and n: "0 < kq_count q"
  defines "q' \<equiv> q\<lparr>kbuf_tail := c_mod (kbuf_tail q + 1) KBUF_SIZE\<rparr>"
  shows "keyboard_getchar_irq q = Some (hd (kq_list q), q')"
    and "kq_inv q'" and "kq_list q' = tl (kq_list q)"
proof -
  let ?h = "kbuf_head q" and ?t = "kbuf_tail q"
  from inv have r: "0 \<le> ?h" "?h < 256" "0 \<le> ?t" "?t < 256" "length (kbuf q) = 256"
    by (simp_all add: kq_inv_def)
  have cm: "c_mod (?t + 1) KBUF_SIZE = (if ?t + 1 < 256 then ?t + 1 else ?t + 1 - 256)"
    using r mod256_add [of ?t 1] by (simp add: c_mod_nonneg)
  have cq: "int (kq_count q) = (if ?t \<le> ?h then ?h - ?t else ?h - ?t + 256)"
    using r by (simp add: kq_count_def mod256_sub)
  from n cq have ne: "?h \<noteq> ?t" by (auto split: if_splits)
  have hd: "hd (kq_list q) = kbuf q ! nat ?t"
    using n r by (simp add: kq_list_def hd_map hd_upt mod_pos_pos_trivial)
  show "keyboard_getchar_irq q = Some (hd (kq_list q), q')"
    using ne by (simp add: keyboard_getchar_irq_def kbuf_wait_nonempty hd q'_def)
  show "kq_inv q'"
    using r by (simp add: kq_inv_def q'_def cm)
  have "int (kq_count q') = int (kq_count q) - 1"
    using r n cq mod256_sub [of ?h "kbuf_tail q'"]
    by (auto simp: kq_count_def q'_def cm split: if_splits)
  with n have cnt: "kq_count q = Suc (kq_count q')" by simp
  have sh: "(kbuf_tail q' + int i) mod 256 = (?t + int (Suc i)) mod 256" for i
  proof -
    have "(kbuf_tail q' + int i) mod 256 = ((?t + 1) mod 256 + int i) mod 256"
      using r by (simp add: q'_def c_mod_nonneg)
    also have "\<dots> = (?t + 1 + int i) mod 256" by (rule mod_add_left_eq)
    finally show ?thesis by (simp add: algebra_simps)
  qed
  let ?f = "\<lambda>i. kbuf q ! nat ((?t + int i) mod 256)"
  have "kq_list q = ?f 0 # map ?f [Suc 0..<Suc (kq_count q')]"
    unfolding kq_list_def cnt by (simp add: upt_conv_Cons del: upt_Suc)
  also have "[Suc 0..<Suc (kq_count q')] = map Suc [0..<kq_count q']"
    by (simp only: map_Suc_upt)
  also have "map ?f (map Suc [0..<kq_count q']) = kq_list q'"
    unfolding kq_list_def map_map o_def sh by (simp add: q'_def)
  finally have "kq_list q = ?f 0 # kq_list q'" .
  then show "kq_list q' = tl (kq_list q)" by simp
qed

lemma run_events_fifo:
  "kq_inv q \<Longrightarrow> pending_ok es (kq_count q) \<Longrightarrow>
   \<exists>q'. run_events es q = Some (take (pops es) (kq_list q @ pushed es), q') \<and> kq_inv q'"
proof (induction es arbitrary: q)
  case Nil
  then show ?case by simp
next
  case (Cons e es)
  show ?case
  proof (cases e)
    case (Irq sc)
    show ?thesis
    proof (cases "key_char sc")
      case None
      with Cons Irq show ?thesis by (simp add: keyboard_handler_key)
    next
      case (Some c)
      let ?q = "q\<lparr>kbuf := (kbuf q)[nat (kbuf_head q) := c],
                   kbuf_head := c_mod (kbuf_head q + 1) KBUF_SIZE\<rparr>"
      from Cons.prems Irq Some have n: "kq_count q < 255" and ok: "pending_ok es (Suc (kq_count q))"
        by simp_all
      note p = push_ok(1) [OF Cons.prems(1) n] push_ok(2) [OF Cons.prems(1) n, of c]
        push_ok(3) [OF Cons.prems(1) n, of c]
      have h: "keyboard_handler (\<lambda>_. sc) q = ?q"
        using Some p(1) by (simp add: keyboard_handler_key)
      have "pending_ok es (kq_count ?q)"
        using ok p(3) by (metis length_kq_list length_append_singleton)
      from Cons.IH [OF p(2) this] show ?thesis
        using Irq Some h p(3) by simp
    qed
  next
    case Getchar
    let ?q = "q\<lparr>kbuf_tail := c_mod (kbuf_tail q + 1) KBUF_SIZE\<rparr>"
    from Cons.prems Getchar have n: "0 < kq_count q" and ok: "pending_ok es (kq_count q - 1)"
      by simp_all
    note p = pop_ok [OF Cons.prems(1) n]
    have "kq_count ?q = kq_count q - 1"
      using p(3) by (metis length_kq_list length_tl)
    with ok have "pending_ok es (kq_count ?q)" by simp
    from Cons.IH [OF p(2) this] obtain q' where
      r: "run_events es ?q = Some (take (pops es) (kq_list ?q @ pushed es), q')" and i: "kq_inv q'"
      by blast
    from n have ne: "kq_list q \<noteq> []" by (metis length_kq_list length_greater_0_conv)
    then have "kq_list q = hd (kq_list q) # kq_list ?q" using p(3) by simp
    then have "take (pops (e # es)) (kq_list q @ pushed (e # es)) =
        hd (kq_list q) # take (pops es) (kq_list ?q @ pushed es)"
      using Getchar by (metis append_Cons pops.simps(3) pushed.simps(3) take_Suc_Cons)
    with r i p(1) Getchar show ?thesis by simp
  qed
qed

text \<open>
  Claim C1 (queue FIFO). From an empty ring (head equal to tail, as after the reset in
  \<^verbatim>\<open>interrupts_install\<close>), for every interleaving of handler runs and
  \<^verbatim>\<open>keyboard_getchar_irq\<close> calls in which the pending characters never exceed
  \<open>KBUF_SIZE - 1 = 255\<close> and each call has a character to return, every call returns,
  and the characters returned are the characters pushed, in the order they were pushed.
\<close>

theorem queue_fifo:
  "kq_inv q \<Longrightarrow> kbuf_head q = kbuf_tail q \<Longrightarrow> pending_ok es 0 \<Longrightarrow>
   \<exists>q'. run_events es q = Some (take (pops es) (pushed es), q')"
proof -
  assume inv: "kq_inv q" and e: "kbuf_head q = kbuf_tail q" and ok: "pending_ok es 0"
  from e have c: "kq_count q = 0" by (simp add: kq_count_def)
  then have "kq_list q = []" by (simp add: kq_list_def)
  with run_events_fifo [OF inv, of es] ok c show ?thesis by auto
qed

theorem queue_fifo_witness:
  "\<exists>q'. run_events [Irq 30, Irq 31, Getchar, Irq 0x9E, Irq 32, Getchar, Getchar]
          (kq_reset \<lparr>kbuf = replicate 256 NUL, kbuf_head = 7, kbuf_tail = 3\<rparr>)
        = Some (''asd'', q')"
  using queue_fifo [of "kq_reset \<lparr>kbuf = replicate 256 NUL, kbuf_head = 7, kbuf_tail = 3\<rparr>"
      "[Irq 30, Irq 31, Getchar, Irq 0x9E, Irq 32, Getchar, Getchar]"]
  by (simp add: kq_reset_def kq_inv_def key_char_def scancode_map_def)

text \<open>
  Claim C2 (queue drop policy). Let the handler run with a scancode that decodes to the
  character \<open>c\<close>. When advancing \<^verbatim>\<open>kbuf_head\<close> by one modulo \<open>KBUF_SIZE\<close> gives
  \<^verbatim>\<open>kbuf_tail\<close> (the ring is full), the whole ring state is unchanged, so \<open>c\<close> is lost.
  Otherwise \<open>c\<close> is stored in the cell at the old head and the head advances by one
  modulo \<open>KBUF_SIZE\<close>; the tail and the other cells are unchanged.
\<close>

theorem queue_drop_policy:
  assumes inv: "kq_inv q" and key: "key_char (inb 0x60) = Some c"
  shows "((kbuf_head q + 1) mod KBUF_SIZE = kbuf_tail q \<longrightarrow> keyboard_handler inb q = q) \<and>
         ((kbuf_head q + 1) mod KBUF_SIZE \<noteq> kbuf_tail q \<longrightarrow>
            keyboard_handler inb q =
              q\<lparr>kbuf := (kbuf q)[nat (kbuf_head q) := c],
                kbuf_head := (kbuf_head q + 1) mod KBUF_SIZE\<rparr> \<and>
            kbuf (keyboard_handler inb q) ! nat (kbuf_head q) = c)"
proof -
  from inv have r: "0 \<le> kbuf_head q" "kbuf_head q < 256" "length (kbuf q) = 256"
    by (simp_all add: kq_inv_def)
  then have cm: "c_mod (kbuf_head q + 1) KBUF_SIZE = (kbuf_head q + 1) mod KBUF_SIZE"
    by (simp add: c_mod_nonneg)
  show ?thesis
    using key r by (simp add: keyboard_handler_key cm)
qed

theorem queue_drop_policy_witness:
  "keyboard_handler (\<lambda>_. 30) \<lparr>kbuf = replicate 256 (CHR ''x''), kbuf_head = 4, kbuf_tail = 5\<rparr>
     = \<lparr>kbuf = replicate 256 (CHR ''x''), kbuf_head = 4, kbuf_tail = 5\<rparr> \<and>
   keyboard_handler (\<lambda>_. 30) \<lparr>kbuf = replicate 256 (CHR ''x''), kbuf_head = 255, kbuf_tail = 5\<rparr>
     = \<lparr>kbuf = (replicate 256 (CHR ''x''))[255 := CHR ''a''], kbuf_head = 0, kbuf_tail = 5\<rparr>"
  using
    queue_drop_policy [of "\<lparr>kbuf = replicate 256 (CHR ''x''), kbuf_head = 4, kbuf_tail = 5\<rparr>"
      "\<lambda>_. 30" "CHR ''a''"]
    queue_drop_policy [of "\<lparr>kbuf = replicate 256 (CHR ''x''), kbuf_head = 255, kbuf_tail = 5\<rparr>"
      "\<lambda>_. 30" "CHR ''a''"]
  by (simp add: kq_inv_def key_char_def scancode_map_def)

section \<open>Interrupt-controller byte sequence\<close>

lemma pb: "bit (push_bit 1 (1::u32)) j \<longleftrightarrow> j = 1"
  by (auto simp add: bit_simps)

lemma unmask_bits:
  "bit (ucast ((ucast (m::u8) :: u32) AND NOT (push_bit 1 1)) :: u8) i \<longleftrightarrow> bit m i \<and> i \<noteq> 1"
proof (cases "i < 8")
  case True
  then show ?thesis
    unfolding bit_ucast_iff bit_and_iff bit_not_iff pb by simp
next
  case False
  then have "\<not> bit m i" using bit_imp_le_length [of m i] by auto
  then show ?thesis unfolding bit_ucast_iff bit_and_iff by simp
qed

text \<open>
  Claim C6 (interrupt-controller configuration). \<^verbatim>\<open>pic_remap\<close> appends exactly ten
  writes to the bytes written so far: \<open>0x11\<close> to both command ports, the vector bases
  \<open>0x20\<close> and \<open>0x28\<close>, the cascade bytes 4 and 2, the mode byte \<open>0x01\<close> to both data
  ports, then the two masks it read from ports \<open>0x21\<close> and \<open>0xA1\<close> at its start.
  \<^verbatim>\<open>pic_unmask_keyboard\<close> appends one write to port \<open>0x21\<close>: the mask it reads there
  with bit 1 cleared and every other bit unchanged.
\<close>

theorem pic_config:
  "pic_remap inb log =
     log @ [(0x20, 0x11), (0xA0, 0x11), (0x21, 0x20), (0xA1, 0x28), (0x21, 4), (0xA1, 2),
            (0x21, 0x01), (0xA1, 0x01), (0x21, inb 0x21), (0xA1, inb 0xA1)] \<and>
   (\<exists>v. pic_unmask_keyboard inb2 log2 = log2 @ [(0x21, v)] \<and>
        (\<forall>i. bit v i \<longleftrightarrow> bit (inb2 0x21) i \<and> i \<noteq> 1))"
proof
  show "pic_remap inb log =
     log @ [(0x20, 0x11), (0xA0, 0x11), (0x21, 0x20), (0xA1, 0x28), (0x21, 4), (0xA1, 2),
            (0x21, 0x01), (0xA1, 0x01), (0x21, inb 0x21), (0xA1, inb 0xA1)]"
    by (simp add: pic_remap_def outb_def Let_def)
  let ?v = "ucast ((ucast (inb2 0x21) :: u32) AND NOT (push_bit 1 1)) :: u8"
  have "pic_unmask_keyboard inb2 log2 = log2 @ [(0x21, ?v)]"
    by (simp only: pic_unmask_keyboard_def outb_def Let_def)
  moreover have "\<forall>i. bit ?v i \<longleftrightarrow> bit (inb2 0x21) i \<and> i \<noteq> 1"
    using unmask_bits by blast
  ultimately show "\<exists>v. pic_unmask_keyboard inb2 log2 = log2 @ [(0x21, v)] \<and>
        (\<forall>i. bit v i \<longleftrightarrow> bit (inb2 0x21) i \<and> i \<noteq> 1)"
    by blast
qed

section \<open>The cursor stays inside the grid\<close>

lemma fold_pres:
  assumes "\<And>x s. x \<in> set xs \<Longrightarrow> P s \<Longrightarrow> P (f x s)" and "P s"
  shows "P (fold f xs s)"
  using assms by (induction xs arbitrary: s) auto

lemma same_cursor_refl [simp]: "same_cursor t t"
  by (simp add: same_cursor_def)

lemma same_cursor_trans: "same_cursor t t1 \<Longrightarrow> same_cursor t1 t2 \<Longrightarrow> same_cursor t t2"
  by (simp add: same_cursor_def)

lemma vga_store_in:
  "idx < VGA_WIDTH * VGA_HEIGHT \<Longrightarrow>
   same_cursor t (vga_store idx v t) \<and> vga_oob (vga_store idx v t) = vga_oob t"
  by (simp add: vga_store_def same_cursor_def)

lemma fold_store_in:
  assumes "\<And>x s. x \<in> set xs \<Longrightarrow> g x < VGA_WIDTH * VGA_HEIGHT"
  shows "same_cursor t (fold (\<lambda>x s. vga_store (g x) (h x s) s) xs t) \<and>
         vga_oob (fold (\<lambda>x s. vga_store (g x) (h x s) s) xs t) = vga_oob t"
  by (rule fold_pres [where P = "\<lambda>s. same_cursor t s \<and> vga_oob s = vga_oob t"])
     (use assms vga_store_in in \<open>auto intro: same_cursor_trans\<close>)

lemma vga_scroll_frame:
  "same_cursor t (vga_scroll t) \<and> vga_oob (vga_scroll t) = vga_oob t"
proof -
  let ?inner = "\<lambda>r. fold (\<lambda>c t. vga_store (r * VGA_WIDTH + c)
                                      (vga_buffer t ! ((r + 1) * VGA_WIDTH + c)) t) [0..<VGA_WIDTH]"
  have inner: "same_cursor s (?inner r s) \<and> vga_oob (?inner r s) = vga_oob s"
    if "r < VGA_HEIGHT - 1" for r s
    using that
    by (intro fold_store_in [where g = "\<lambda>c. r * VGA_WIDTH + c"
          and h = "\<lambda>c t. vga_buffer t ! ((r + 1) * VGA_WIDTH + c)"]) auto
  let ?t1 = "fold ?inner [0..<VGA_HEIGHT - 1] t"
  have t1: "same_cursor t ?t1 \<and> vga_oob ?t1 = vga_oob t"
    by (rule fold_pres [where P = "\<lambda>s. same_cursor t s \<and> vga_oob s = vga_oob t"])
       (use inner in \<open>auto intro: same_cursor_trans\<close>)
  let ?t2 = "fold (\<lambda>c. vga_store ((VGA_HEIGHT - 1) * VGA_WIDTH + c)
                      (vga_cell (CHR '' '') (term_color ?t1))) [0..<VGA_WIDTH] ?t1"
  have t2: "same_cursor ?t1 ?t2 \<and> vga_oob ?t2 = vga_oob ?t1"
    by (intro fold_store_in [where g = "\<lambda>c. (VGA_HEIGHT - 1) * VGA_WIDTH + c"
          and h = "\<lambda>c s. vga_cell (CHR '' '') (term_color ?t1)"]) auto
  have "vga_scroll t = ?t2" by (simp add: vga_scroll_def Let_def)
  with t1 t2 show ?thesis by (auto intro: same_cursor_trans)
qed

lemma vga_putat_in:
  assumes "unat row < VGA_HEIGHT" "unat col < VGA_WIDTH"
  shows "same_cursor t (vga_putat c color row col t) \<and>
         vga_oob (vga_putat c color row col t) = vga_oob t"
proof -
  from assms have "unat row * VGA_WIDTH + unat col < VGA_WIDTH * VGA_HEIGHT" by simp
  moreover from this
  have "unat (of_nat (unat row * VGA_WIDTH + unat col) :: u16) = unat row * VGA_WIDTH + unat col"
    by (simp only: unat_of_nat) simp
  ultimately show ?thesis
    by (simp only: vga_putat_def Let_def vga_store_in)
qed

lemma update_cursor_frame:
  "term_row (update_cursor t) = term_row t \<and> term_col (update_cursor t) = term_col t \<and>
   term_color (update_cursor t) = term_color t \<and> vga_oob (update_cursor t) = vga_oob t \<and>
   vga_buffer (update_cursor t) = vga_buffer t"
  by (simp add: update_cursor_def Let_def)

lemma unat_inc8: "unat (x :: u8) < 255 \<Longrightarrow> unat (x + 1) = unat x + 1"
  by (simp add: unat_word_ariths)

lemma unat_dec8: "0 < unat (x :: u8) \<Longrightarrow> unat (x - 1) = unat x - 1"
  by (simp add: unat_minus_one unat_gt_0)

lemma advance_row:
  assumes "unat (term_row t) < VGA_HEIGHT" "unat (term_col t) < VGA_WIDTH"
  defines "t1 \<equiv> t\<lparr>term_row := term_row t + 1\<rparr>"
  defines "t2 \<equiv> (if unat (term_row t1) = VGA_HEIGHT
                  then vga_scroll (t1\<lparr>term_row := of_nat (VGA_HEIGHT - 1)\<rparr>) else t1)"
  shows "cursor_in_grid t2 \<and> vga_oob t2 = vga_oob t"
proof (cases "unat (term_row t1) = VGA_HEIGHT")
  case True
  let ?s = "t1\<lparr>term_row := of_nat (VGA_HEIGHT - 1)\<rparr>"
  from vga_scroll_frame [of ?s] True assms(2) show ?thesis
    by (simp add: t2_def t1_def same_cursor_def cursor_in_grid_def)
next
  case False
  with assms(1,2) show ?thesis
    by (simp add: t2_def t1_def cursor_in_grid_def unat_inc8)
qed

lemma vga_putc_cursor:
  assumes "cursor_in_grid t"
  shows "cursor_in_grid (vga_putc c t) \<and> vga_oob (vga_putc c t) = vga_oob t"
proof -
  from assms have r: "unat (term_row t) < VGA_HEIGHT" and cl: "unat (term_col t) < VGA_WIDTH"
    by (simp_all add: cursor_in_grid_def)
  have uc: "cursor_in_grid (update_cursor s) = cursor_in_grid s"
    "vga_oob (update_cursor s) = vga_oob s" for s
    by (simp_all add: cursor_in_grid_def update_cursor_frame)
  consider (nl) "c = CHR 0x0A" | (cr) "c \<noteq> CHR 0x0A" "c = CHR 0x0D"
    | (bs) "c \<noteq> CHR 0x0A" "c \<noteq> CHR 0x0D" "c = CHR 0x08"
    | (ch) "c \<noteq> CHR 0x0A" "c \<noteq> CHR 0x0D" "c \<noteq> CHR 0x08"
    by blast
  then show ?thesis
  proof cases
    case nl
    from advance_row [of "t\<lparr>term_col := 0\<rparr>"] r show ?thesis
      by (simp add: vga_putc_def nl uc Let_def)
  next
    case cr
    with r show ?thesis by (simp add: vga_putc_def update_cursor_frame cursor_in_grid_def)
  next
    case bs
    show ?thesis
    proof (cases "0 < unat (term_col t)")
      case True
      let ?s = "t\<lparr>term_col := term_col t - 1\<rparr>"
      have "unat (term_col ?s) < VGA_WIDTH" using True cl by (simp add: unat_dec8)
      with vga_putat_in [of "term_row ?s" "term_col ?s" ?s "CHR '' ''" "term_color ?s"] r
      show ?thesis using True bs
        by (simp add: vga_putc_def update_cursor_frame Let_def cursor_in_grid_def same_cursor_def)
    next
      case False
      with bs assms show ?thesis by (simp add: vga_putc_def uc)
    qed
  next
    case ch
    let ?p = "vga_putat c (term_color t) (term_row t) (term_col t) t"
    from vga_putat_in [OF r cl, of t c "term_color t"]
    have p: "same_cursor t ?p" "vga_oob ?p = vga_oob t" by simp_all
    let ?s = "?p\<lparr>term_col := term_col ?p + 1\<rparr>"
    have cs: "unat (term_col ?s) = unat (term_col t) + 1"
      using p(1) cl by (simp add: same_cursor_def unat_inc8)
    show ?thesis
    proof (cases "VGA_WIDTH \<le> unat (term_col ?s)")
      case True
      let ?s0 = "?s\<lparr>term_col := 0\<rparr>"
      have a: "unat (term_row ?s0) < VGA_HEIGHT" "unat (term_col ?s0) < VGA_WIDTH"
        using r p(1) by (simp_all add: same_cursor_def)
      have o: "vga_oob ?s0 = vga_oob t" using p(2) by simp
      from advance_row [OF a] o
      show ?thesis using True ch
        by (simp add: vga_putc_def uc Let_def split: if_splits)
    next
      case False
      with cs r p show ?thesis using ch
        by (simp add: vga_putc_def update_cursor_frame Let_def same_cursor_def cursor_in_grid_def)
    qed
  qed
qed

lemma vga_clear_cursor:
  "cursor_in_grid (vga_clear t) \<and> vga_oob (vga_clear t) = vga_oob t"
proof -
  let ?t1 = "fold (\<lambda>i. vga_store i (vga_cell (CHR '' '') (term_color t)))
               [0..<VGA_WIDTH * VGA_HEIGHT] t"
  have "same_cursor t ?t1 \<and> vga_oob ?t1 = vga_oob t"
    by (intro fold_store_in [where g = "\<lambda>i. i"
          and h = "\<lambda>i s. vga_cell (CHR '' '') (term_color t)"]) auto
  then show ?thesis
    by (simp add: vga_clear_def Let_def cursor_in_grid_def update_cursor_frame)
qed

text \<open>
  Claim C7 (terminal cursor invariant). From any state whose cursor is inside the grid
  (\<open>term_row < VGA_HEIGHT\<close>, \<open>term_col < VGA_WIDTH\<close>), \<^verbatim>\<open>vga_putc\<close> with any byte,
  \<^verbatim>\<open>vga_clear\<close> and \<^verbatim>\<open>vga_scroll\<close> leave the cursor inside the grid, and none of their
  cell writes falls outside the \<open>VGA_WIDTH * VGA_HEIGHT\<close> cells: \<open>vga_oob\<close>, which a write
  outside the grid would set, is unchanged.
\<close>

theorem cursor_in_bounds:
  assumes "unat (term_row t) < VGA_HEIGHT" and "unat (term_col t) < VGA_WIDTH"
  shows "unat (term_row (vga_putc c t)) < VGA_HEIGHT \<and> unat (term_col (vga_putc c t)) < VGA_WIDTH \<and>
         vga_oob (vga_putc c t) = vga_oob t \<and>
         unat (term_row (vga_clear t)) < VGA_HEIGHT \<and> unat (term_col (vga_clear t)) < VGA_WIDTH \<and>
         vga_oob (vga_clear t) = vga_oob t \<and>
         unat (term_row (vga_scroll t)) < VGA_HEIGHT \<and> unat (term_col (vga_scroll t)) < VGA_WIDTH \<and>
         vga_oob (vga_scroll t) = vga_oob t"
  using assms vga_putc_cursor [of t c] vga_clear_cursor [of t] vga_scroll_frame [of t]
  by (simp add: cursor_in_grid_def same_cursor_def)

theorem cursor_in_bounds_witness:
  "unat (term_row (vga_putc (CHR ''x'') \<lparr>vga_buffer = replicate 2000 0, term_row = 24,
      term_col = 79, term_color = 7, vga_ports = [], vga_oob = False\<rparr>)) < VGA_HEIGHT \<and>
   unat (term_col (vga_putc (CHR ''x'') \<lparr>vga_buffer = replicate 2000 0, term_row = 24,
      term_col = 79, term_color = 7, vga_ports = [], vga_oob = False\<rparr>)) < VGA_WIDTH \<and>
   \<not> vga_oob (vga_putc (CHR ''x'') \<lparr>vga_buffer = replicate 2000 0, term_row = 24,
      term_col = 79, term_color = 7, vga_ports = [], vga_oob = False\<rparr>)"
  using cursor_in_bounds [of "\<lparr>vga_buffer = replicate 2000 0, term_row = 24,
      term_col = 79, term_color = 7, vga_ports = [], vga_oob = False\<rparr>" "CHR ''x''"]
  by simp

section \<open>Integer formatting\<close>

lemma digits_lsf_length:
  "2 \<le> b \<Longrightarrow> n < 2 ^ k \<Longrightarrow> length (digits_lsf b n) \<le> k"
proof (induction k arbitrary: n)
  case 0
  then show ?case by (simp add: digits_lsf.simps)
next
  case (Suc k)
  show ?case
  proof (cases "n = 0")
    case True
    then show ?thesis by (simp add: digits_lsf.simps)
  next
    case False
    have "n div b \<le> n div 2" using Suc.prems(1) by (rule div_le_mono2 [rotated]) simp
    also have "n div 2 < 2 ^ k" using Suc.prems(2) by simp
    finally have "length (digits_lsf b (n div b)) \<le> k" using Suc.IH Suc.prems(1) by simp
    with False Suc.prems(1) show ?thesis by (subst digits_lsf.simps) simp
  qed
qed

lemma digits_lsf_value:
  "2 \<le> b \<Longrightarrow> foldr (\<lambda>d acc. d + b * acc) (digits_lsf b n) 0 = n \<and>
     (\<forall>d \<in> set (digits_lsf b n). d < b)"
proof (induction b n rule: digits_lsf.induct)
  case (1 b n)
  show ?case
  proof (cases "n = 0")
    case True
    then show ?thesis by (simp add: digits_lsf.simps)
  next
    case False
    with 1 show ?thesis by (subst (1 2) digits_lsf.simps) auto
  qed
qed

lemma char_of_mod32: "char_of (n mod 4294967296 :: nat) = char_of n"
proof -
  have "char_of (n mod 4294967296) = char_of (n mod 4294967296 mod 256)"
    by (simp only: char_of_mod_256)
  also have "n mod 4294967296 mod 256 = n mod 256"
    by (rule mod_mod_cancel) simp
  finally show ?thesis by (simp only: char_of_mod_256)
qed

lemma kputu_digit_char:
  "char_of (unat (if (d::u32) < 10 then 48 + d else 97 + d - 10)) = digit_char (unat d)"
proof (cases "d < 10")
  case True
  then have "unat d < 10" by (simp add: word_less_nat_alt)
  moreover have "char_of (unat (48 + d)) = char_of (48 + unat d)"
    using char_of_mod32 [of "48 + unat d"] by (simp add: unat_word_ariths)
  ultimately show ?thesis using True by (simp add: digit_char_def)
next
  case False
  then have f: "\<not> unat d < 10" by (simp add: word_less_nat_alt)
  then have "10 \<le> d" using False by simp
  have "97 + d - 10 = 87 + d" by simp
  moreover have "char_of (unat (87 + d)) = char_of (87 + unat d)"
    using char_of_mod32 [of "87 + unat d"] by (simp add: unat_word_ariths)
  moreover have "97 + unat d - 10 = 87 + unat d" using f by simp
  ultimately show ?thesis using False f by (simp add: digit_char_def)
qed

lemma kputu_loop_digits:
  "2 \<le> unat base \<Longrightarrow> length buf + length (digits_lsf (unat base) (unat val)) \<le> 33 \<Longrightarrow>
   kputu_loop val base buf = Some (buf @ map digit_char (digits_lsf (unat base) (unat val)))"
proof (induction "unat val" arbitrary: val buf rule: less_induct)
  case less
  show ?case
  proof (cases "val = 0")
    case True
    then show ?thesis by (subst kputu_loop.simps) (simp add: digits_lsf.simps)
  next
    case False
    then have nz: "unat val \<noteq> 0" by (simp add: unat_eq_0)
    from less.prems(1) have b0: "base \<noteq> 0" by auto
    have dg: "digits_lsf (unat base) (unat val) =
        unat (val mod base) # digits_lsf (unat base) (unat (val div base))"
      using nz less.prems(1) by (subst digits_lsf.simps) (simp add: unat_mod unat_div)
    with less.prems(2) have len: "\<not> 33 \<le> length buf" by simp
    have "unat (val div base) < unat val"
      using nz less.prems(1) by (simp add: unat_div)
    from less.hyps [OF this less.prems(1), of "buf @ [digit_char (unat (val mod base))]"]
      less.prems(2) dg
    have "kputu_loop (val div base) base (buf @ [digit_char (unat (val mod base))]) =
        Some (buf @ map digit_char (digits_lsf (unat base) (unat val)))"
      by simp
    then show ?thesis
      using False b0 len by (subst kputu_loop.simps) (simp add: Let_def kputu_digit_char)
  qed
qed

lemma digit_char_table: "map digit_char [0..<16] = ''0123456789abcdef''"
  by (simp add: upt_rec digit_char_def char_of_def bit_iff_odd)

lemma digit_char_nth: "d < 16 \<Longrightarrow> digit_char d = ''0123456789abcdef'' ! d"
proof -
  assume "d < 16"
  then have "map digit_char [0..<16] ! d = digit_char d" by simp
  then show ?thesis by (simp only: digit_char_table)
qed

lemma kputu_digits:
  assumes "2 \<le> base" "base < 2 ^ 32"
  shows "kputu val base t =
     Some (vga_puts (if val = 0 then ''0''
                     else rev (map digit_char (digits_lsf (nat base) (unat val)))) t)"
proof -
  from assms have ub: "unat (word_of_int base :: u32) = nat base"
    by (simp add: unat_eq_nat_uint uint_word_of_int mod_pos_pos_trivial)
  have "length (digits_lsf (nat base) (unat val)) \<le> 32"
    using assms(1) by (intro digits_lsf_length) (use unsigned_less [of val] in simp_all)
  then have "kputu_loop val (word_of_int base) [] =
      Some (map digit_char (digits_lsf (nat base) (unat val)))"
    using kputu_loop_digits [of "word_of_int base" "[]" val] assms(1) by (simp add: ub)
  then show ?thesis
    by (simp add: kputu_def vga_puts_def rev_map)
qed

lemma unat_neg_of_negative:
  assumes n: "sint (v::u32) < 0"
  shows "unat (- v) = nat (- sint v)"
proof -
  have "- v = word_of_int (- sint v)" by simp
  then have "uint (- v) = (- sint v) mod 2 ^ 32"
    by (simp only: uint_word_of_int) simp
  moreover have "0 \<le> - sint v" "- sint v < 2 ^ 32"
    using n sint_ge [of v] by simp_all
  ultimately have "uint (- v) = - sint v" by (simp add: mod_pos_pos_trivial)
  then show ?thesis by (simp only: unat_eq_nat_uint)
qed

lemma kputi_negative:
  assumes "2 \<le> base" "base < 2 ^ 32" "sint val < 0"
  shows "kputi val base t =
     Some (vga_puts (CHR ''-'' # rev (map digit_char (digits_lsf (nat base) (nat (- sint val))))) t)"
proof -
  from assms(3) have "- val \<noteq> 0" by auto
  with kputu_digits [OF assms(1,2), of "- val" "vga_putc (CHR ''-'') t"] assms(3)
  show ?thesis
    by (simp add: kputi_def unat_neg_of_negative vga_puts_def)
qed

text \<open>
  Claim C8 (integer formatting). For every 32-bit value and every base from 2 up,
  \<^verbatim>\<open>kputu\<close> returns, and what it emits is: the single character \<open>0\<close> for the value 0,
  otherwise the digits obtained by repeated division by the base, collected least
  significant first and emitted in reverse. For a negative argument \<^verbatim>\<open>kputi\<close> emits
  \<open>-\<close> and then the decimal digits of the magnitude; for \<open>-2147483648\<close>, whose negation
  modulo \<open>2 ^ 32\<close> is \<open>2147483648\<close>, that is \<open>-2147483648\<close>.
\<close>

theorem integer_formatting:
  assumes "2 \<le> base" "base < 2 ^ 32"
  shows "kputu val base t =
           Some (vga_puts (if val = 0 then ''0''
                           else rev (map digit_char (digits_lsf (nat base) (unat val)))) t) \<and>
         (sint val < 0 \<longrightarrow>
            kputi val 10 t =
              Some (vga_puts (CHR ''-'' #
                      rev (map digit_char (digits_lsf 10 (nat (- sint val))))) t)) \<and>
         kputi (- 2147483648) 10 t = Some (vga_puts ''-2147483648'' t)"
proof -
  have m: "sint (- 2147483648 :: u32) = - 2147483648" by simp
  have "rev (map digit_char (digits_lsf 10 2147483648)) = ''2147483648''"
    by (simp add: digits_lsf.simps digit_char_nth)
  with kputi_negative [of 10 "- 2147483648" t]
  have "kputi (- 2147483648) 10 t = Some (vga_puts ''-2147483648'' t)"
    by (simp only: m) simp
  with kputu_digits [OF assms] kputi_negative [of 10 val t] show ?thesis by simp
qed

theorem integer_formatting_witness:
  "\<forall>t. kputu 255 16 t = Some (vga_puts ''ff'' t) \<and>
       kputi (- 42) 10 t = Some (vga_puts ''-42'' t)"
proof
  fix t
  have "sint (- 42 :: u32) = - 42" by simp
  with integer_formatting [of 16 255 t] integer_formatting [of 10 "- 42" t]
  show "kputu 255 16 t = Some (vga_puts ''ff'' t) \<and>
       kputi (- 42) 10 t = Some (vga_puts ''-42'' t)"
    by (simp add: digits_lsf.simps digit_char_nth)
qed

section \<open>The file store refines its view\<close>

subsection \<open>Strings and stored names\<close>

lemma str_at_NUL_iff: "NUL \<notin> set s \<Longrightarrow> str_at s k = NUL \<longleftrightarrow> length s \<le> k"
  by (auto simp: str_at_def dest: nth_mem)

lemma str_at_nth: "k < length s \<Longrightarrow> str_at s k = s ! k"
  by (simp add: str_at_def)

lemma cstr_no_NUL: "NUL \<notin> set (cstr arr)"
  by (auto simp: cstr_def dest: set_takeWhileD)

lemma cstr_length: "NUL \<in> set arr \<Longrightarrow> length (cstr arr) < length arr"
  unfolding cstr_def by (induction arr) auto

lemma cstr_nth: "k < length (cstr arr) \<Longrightarrow> arr ! k = cstr arr ! k"
  by (simp add: cstr_def takeWhile_nth)

lemma cstr_end: "NUL \<in> set arr \<Longrightarrow> arr ! length (cstr arr) = NUL"
  using nth_length_takeWhile [of "\<lambda>c. c \<noteq> NUL" arr] cstr_length [of arr]
  by (simp add: cstr_def)

lemma cstr_eq_take:
  assumes "m < length arr" "arr ! m = NUL" "\<forall>i<m. arr ! i \<noteq> NUL"
  shows "cstr arr = take m arr"
  unfolding cstr_def using assms by (intro takeWhile_eq_take_P_nth) auto

text \<open>The scan stops at the first position where the two strings differ or one ends.\<close>

lemma name_at_cstr:
  assumes "length (name e) = MAX_NAME" "NUL \<in> set (name e)" "k \<le> length (cstr (name e))"
  shows "name_at e k = (if k < length (cstr (name e)) then cstr (name e) ! k else NUL)"
    and "name_at e k = NUL \<longleftrightarrow> k = length (cstr (name e))"
proof -
  from cstr_length [OF assms(2)] assms(1,3) have k: "k < MAX_NAME" by simp
  show 1: "name_at e k = (if k < length (cstr (name e)) then cstr (name e) ! k else NUL)"
    using k assms(3) cstr_nth [of k "name e"] cstr_end [OF assms(2)]
    by (auto simp: name_at_def)
  show "name_at e k = NUL \<longleftrightarrow> k = length (cstr (name e))"
    using 1 cstr_no_NUL [of "name e"] assms(3) by (auto dest: nth_mem)
qed

lemma fs_find_scan_stop:
  assumes "length (name e) = MAX_NAME" "NUL \<in> set (name e)" "NUL \<notin> set nm"
    and "k \<le> length (cstr (name e))" "k \<le> length nm"
    and "take k (cstr (name e)) = take k nm"
  shows "fs_find_scan e nm k \<le> length (cstr (name e)) \<and> fs_find_scan e nm k \<le> length nm \<and>
         take (fs_find_scan e nm k) (cstr (name e)) = take (fs_find_scan e nm k) nm \<and>
         (fs_find_scan e nm k = length (cstr (name e)) \<or> fs_find_scan e nm k = length nm \<or>
          cstr (name e) ! fs_find_scan e nm k \<noteq> nm ! fs_find_scan e nm k)"
  using assms
proof (induction e nm k rule: fs_find_scan.induct)
  case (1 e nm k)
  let ?s = "cstr (name e)"
  let ?c = "k < MAX_NAME \<and> name_at e k \<noteq> NUL \<and> str_at nm k \<noteq> NUL \<and> name_at e k = str_at nm k"
  from cstr_length [OF "1.prems"(2)] "1.prems"(1) have L: "length ?s < MAX_NAME" by simp
  have c: "?c \<longleftrightarrow> k < length ?s \<and> k < length nm \<and> ?s ! k = nm ! k"
    using name_at_cstr [OF "1.prems"(1,2,4)] str_at_NUL_iff [OF "1.prems"(3), of k]
      "1.prems"(4,5) L
    by (auto simp: str_at_nth)
  show ?case
  proof (cases ?c)
    case True
    with c have k: "k < length ?s" "k < length nm" "?s ! k = nm ! k" by simp_all
    then have "take (Suc k) ?s = take (Suc k) nm"
      using "1.prems"(6) by (simp add: take_Suc_conv_app_nth)
    with "1.IH" [OF True "1.prems"(1,2,3)] k
    have "fs_find_scan e nm (Suc k) \<le> length ?s \<and> fs_find_scan e nm (Suc k) \<le> length nm \<and>
         take (fs_find_scan e nm (Suc k)) ?s = take (fs_find_scan e nm (Suc k)) nm \<and>
         (fs_find_scan e nm (Suc k) = length ?s \<or> fs_find_scan e nm (Suc k) = length nm \<or>
          ?s ! fs_find_scan e nm (Suc k) \<noteq> nm ! fs_find_scan e nm (Suc k))"
      by simp
    moreover have "fs_find_scan e nm k = fs_find_scan e nm (Suc k)"
      using True by (subst fs_find_scan.simps) auto
    ultimately show ?thesis by simp
  next
    case False
    then have "fs_find_scan e nm k = k" by (subst fs_find_scan.simps) auto
    with False c "1.prems"(4,5,6) show ?thesis by auto
  qed
qed

lemma fs_match_iff:
  assumes "length (name e) = MAX_NAME" "NUL \<in> set (name e)" "NUL \<notin> set nm"
  shows "fs_match e nm \<longleftrightarrow> cstr (name e) = nm"
proof -
  let ?s = "cstr (name e)" and ?k = "fs_find_scan e nm 0"
  from fs_find_scan_stop [OF assms, of 0]
  have k: "?k \<le> length ?s" "?k \<le> length nm" "take ?k ?s = take ?k nm"
    "?k = length ?s \<or> ?k = length nm \<or> ?s ! ?k \<noteq> nm ! ?k"
    by simp_all
  have "fs_match e nm \<longleftrightarrow> ?k = length ?s \<and> ?k = length nm"
    using name_at_cstr(2) [OF assms(1,2) k(1)] str_at_NUL_iff [OF assms(3), of ?k] k(2)
    by (auto simp: fs_match_def Let_def)
  also have "\<dots> \<longleftrightarrow> ?s = nm"
  proof
    assume "?k = length ?s \<and> ?k = length nm"
    with k(3) show "?s = nm" by simp
  next
    assume "?s = nm"
    with k(1,2,4) show "?k = length ?s \<and> ?k = length nm" by auto
  qed
  finally show ?thesis .
qed

lemma fs_name_copy_gen:
  assumes "length arr = MAX_NAME" "NUL \<notin> set nm" "j \<le> MAX_NAME - 1" "j \<le> length nm"
    and "take j arr = take j nm"
  shows "length (fs_name_copy nm j arr) = MAX_NAME \<and>
         take (min (MAX_NAME - 1) (length nm)) (fs_name_copy nm j arr) =
           take (min (MAX_NAME - 1) (length nm)) nm \<and>
         fs_name_copy nm j arr ! min (MAX_NAME - 1) (length nm) = NUL"
  using assms
proof (induction nm j arr rule: fs_name_copy.induct)
  case (1 nm j arr)
  let ?c = "j < MAX_NAME - 1 \<and> str_at nm j \<noteq> NUL"
  have c: "?c \<longleftrightarrow> j < MAX_NAME - 1 \<and> j < length nm"
    using str_at_NUL_iff [OF "1.prems"(2), of j] by auto
  show ?case
  proof (cases ?c)
    case True
    with c have j: "j < MAX_NAME - 1" "j < length nm" by simp_all
    let ?arr = "arr[j := str_at nm j]"
    have "take (Suc j) ?arr = take (Suc j) nm"
      using j "1.prems"(1,5) by (simp add: take_Suc_conv_app_nth str_at_nth)
    with "1.IH" [OF True] "1.prems"(1,2) j
    have "length (fs_name_copy nm (Suc j) ?arr) = MAX_NAME \<and>
         take (min (MAX_NAME - 1) (length nm)) (fs_name_copy nm (Suc j) ?arr) =
           take (min (MAX_NAME - 1) (length nm)) nm \<and>
         fs_name_copy nm (Suc j) ?arr ! min (MAX_NAME - 1) (length nm) = NUL"
      by simp
    moreover have "fs_name_copy nm j arr = fs_name_copy nm (Suc j) ?arr"
      using True by (subst fs_name_copy.simps) auto
    ultimately show ?thesis by simp
  next
    case False
    then have r: "fs_name_copy nm j arr = arr[j := NUL]"
      by (subst fs_name_copy.simps) auto
    from False c "1.prems"(3,4) have m: "min (MAX_NAME - 1) (length nm) = j" by auto
    show ?thesis
      unfolding r m using "1.prems"(1,3,5) by simp
  qed
qed

lemma fs_name_copy_cstr:
  assumes "length arr = MAX_NAME" "NUL \<notin> set nm"
  shows "length (fs_name_copy nm 0 arr) = MAX_NAME"
    and "cstr (fs_name_copy nm 0 arr) = take (MAX_NAME - 1) nm"
    and "NUL \<in> set (fs_name_copy nm 0 arr)"
proof -
  let ?r = "fs_name_copy nm 0 arr" and ?m = "min (MAX_NAME - 1) (length nm)"
  from fs_name_copy_gen [OF assms, of 0]
  have r: "length ?r = MAX_NAME" "take ?m ?r = take ?m nm" "?r ! ?m = NUL" by simp_all
  show "length ?r = MAX_NAME" by (fact r(1))
  have m: "?m < length ?r" using r(1) by simp
  have "?r ! i \<noteq> NUL" if "i < ?m" for i
  proof -
    from that have "?r ! i = take ?m ?r ! i" by simp
    also have "\<dots> = nm ! i" using that by (simp only: r(2)) simp
    finally show ?thesis using that assms(2) by (auto dest: nth_mem)
  qed
  then have "cstr ?r = take ?m ?r" using m r(3) by (intro cstr_eq_take) auto
  moreover have "take ?m nm = take (MAX_NAME - 1) nm" by (simp add: min_def)
  ultimately show "cstr ?r = take (MAX_NAME - 1) nm" by (simp only: r(2))
  show "NUL \<in> set ?r" using m r(3) by (metis nth_mem)
qed

subsection \<open>Find, create and remove on the view\<close>

lemma fs_ok_nth:
  assumes "fs_ok fs" "i < MAX_FILES"
  shows "length (name (fs ! i)) = MAX_NAME" "length (data (fs ! i)) = MAX_FILE_SIZE"
    "NUL \<in> set (name (fs ! i))"
  using assms by (simp_all add: fs_ok_def fs_shape_def fs_names_ok_def list_all_length)

lemma fs_ok_length: "fs_ok fs \<Longrightarrow> length fs = MAX_FILES"
  by (simp add: fs_ok_def fs_shape_def)

lemma fs_ok_update:
  assumes "fs_ok fs" "length (name e) = MAX_NAME" "length (data e) = MAX_FILE_SIZE"
    "NUL \<in> set (name e)"
  shows "fs_ok (fs[i := e])"
  using assms
  by (auto simp: fs_ok_def fs_shape_def fs_names_ok_def list_all_iff
      dest!: set_update_subset_insert [THEN subsetD])

lemma fs_view_nth:
  "i < length fs \<Longrightarrow>
   fs_view fs ! i = (if used (fs ! i) \<noteq> 0 then Some (cstr (name (fs ! i)), size_e (fs ! i)) else None)"
  by (simp add: fs_view_def)

lemma fs_view_update:
  "fs_view (fs[i := e]) =
     (fs_view fs)[i := if used e \<noteq> 0 then Some (cstr (name e), size_e e) else None]"
  by (simp add: fs_view_def map_update)

lemma length_fs_view [simp]: "length (fs_view fs) = length fs"
  by (simp add: fs_view_def)

lemma fs_find_view:
  assumes "fs_ok fs" "NUL \<notin> set nm"
  shows "fs_find nm fs = v_find nm (fs_view fs)"
proof -
  have "(used (fs ! i) \<noteq> 0 \<and> fs_match (fs ! i) nm) \<longleftrightarrow>
        map_option fst (fs_view fs ! i) = Some nm" if "i \<in> set [0..<MAX_FILES]" for i
  proof -
    from that have i: "i < MAX_FILES" by simp
    with fs_match_iff [OF fs_ok_nth(1,3) [OF assms(1) i] assms(2)] fs_ok_length [OF assms(1)]
    show ?thesis by (simp add: fs_view_nth)
  qed
  then have "find (\<lambda>i. used (fs ! i) \<noteq> 0 \<and> fs_match (fs ! i) nm) [0..<MAX_FILES] =
      find (\<lambda>i. map_option fst (fs_view fs ! i) = Some nm) [0..<MAX_FILES]"
    by (intro find_cong) auto
  then show ?thesis by (simp add: fs_find_def v_find_def)
qed

lemma free_slot_view:
  assumes "length fs = MAX_FILES"
  shows "find (\<lambda>i. used (fs ! i) = 0) [0..<MAX_FILES] = find (\<lambda>i. fs_view fs ! i = None) [0..<MAX_FILES]"
  using assms by (intro find_cong) (auto simp: fs_view_nth)

lemma find_upt_less: "find P [0..<n] = Some i \<Longrightarrow> i < n"
  by (auto simp: find_Some_iff)

lemma fs_create_view:
  assumes "fs_ok fs" "NUL \<notin> set nm"
  shows "v_create nm (fs_view fs) = (fst (fs_create nm fs), fs_view (snd (fs_create nm fs)))"
    and "fs_ok (snd (fs_create nm fs))"
proof -
  note len = fs_ok_length [OF assms(1)]
  note fv = fs_find_view [OF assms]
  show "v_create nm (fs_view fs) = (fst (fs_create nm fs), fs_view (snd (fs_create nm fs)))"
  proof (cases "find (\<lambda>i. used (fs ! i) = 0) [0..<MAX_FILES]")
    case None
    then show ?thesis
      using free_slot_view [OF len] by (simp add: fs_create_def v_create_def fv)
  next
    case (Some i)
    then have i: "i < MAX_FILES" by (rule find_upt_less)
    from fs_name_copy_cstr(2) [OF fs_ok_nth(1) [OF assms(1) i] assms(2)] Some
    show ?thesis
      using free_slot_view [OF len]
      by (simp add: fs_create_def v_create_def fv fs_view_update)
  qed
  show "fs_ok (snd (fs_create nm fs))"
  proof (cases "find (\<lambda>i. used (fs ! i) = 0) [0..<MAX_FILES]")
    case None
    then show ?thesis using assms(1) by (simp add: fs_create_def)
  next
    case (Some i)
    then have i: "i < MAX_FILES" by (rule find_upt_less)
    note n = fs_name_copy_cstr(1,3) [OF fs_ok_nth(1) [OF assms(1) i] assms(2)]
    show ?thesis
      using Some assms(1) fs_ok_nth(2) [OF assms(1) i] n
      by (auto simp: fs_create_def intro!: fs_ok_update)
  qed
qed

lemma v_find_range: "v_find nm v = - 1 \<or> (0 \<le> v_find nm v \<and> v_find nm v < int MAX_FILES)"
  by (auto simp: v_find_def split: option.splits dest: find_upt_less)

lemma fs_remove_view:
  assumes "fs_ok fs" "NUL \<notin> set nm"
  shows "v_remove nm (fs_view fs) = (fst (fs_remove nm fs), fs_view (snd (fs_remove nm fs)))"
    and "fs_ok (snd (fs_remove nm fs))"
proof -
  note fv = fs_find_view [OF assms]
  show "v_remove nm (fs_view fs) = (fst (fs_remove nm fs), fs_view (snd (fs_remove nm fs)))"
    by (simp add: fs_remove_def v_remove_def fv Let_def fs_view_update)
  show "fs_ok (snd (fs_remove nm fs))"
  proof (cases "v_find nm (fs_view fs) < 0")
    case True
    then show ?thesis using assms(1) by (simp add: fs_remove_def fv)
  next
    case False
    with v_find_range [of nm "fs_view fs"] have i: "nat (v_find nm (fs_view fs)) < MAX_FILES"
      by auto
    show ?thesis
      using False assms(1) fs_ok_nth [OF assms(1) i]
      by (auto simp: fs_remove_def fv Let_def intro!: fs_ok_update)
  qed
qed

subsection \<open>The table after \<^verbatim>\<open>fs_init\<close>\<close>

lemma fold_update_all:
  "n \<le> length fs \<Longrightarrow>
   fold (\<lambda>i fs. fs[i := f (fs ! i)]) [0..<n] fs = map f (take n fs) @ drop n fs"
proof (induction n)
  case 0
  then show ?case by simp
next
  case (Suc n)
  then have n: "n < length fs" by simp
  have "(map f (take n fs) @ drop n fs)[n := f ((map f (take n fs) @ drop n fs) ! n)] =
        map f (take (Suc n) fs) @ drop (Suc n) fs"
    using n by (simp add: nth_append list_update_append take_Suc_conv_app_nth
        Cons_nth_drop_Suc [symmetric])
  with Suc show ?case by simp
qed

lemma fs_init_copy_len:
  "NUL \<notin> set w \<Longrightarrow> n \<le> length w \<Longrightarrow> n \<le> MAX_FILE_SIZE \<Longrightarrow>
   fst (fs_init_copy w n dst) = min (length w) MAX_FILE_SIZE \<and>
   length (snd (fs_init_copy w n dst)) = length dst"
proof (induction w n dst rule: fs_init_copy.induct)
  case (1 w n dst)
  let ?c = "str_at w n \<noteq> NUL \<and> n < MAX_FILE_SIZE"
  have c: "?c \<longleftrightarrow> n < length w \<and> n < MAX_FILE_SIZE"
    using str_at_NUL_iff [OF "1.prems"(1), of n] by auto
  show ?case
  proof (cases ?c)
    case True
    moreover have "fs_init_copy w n dst = fs_init_copy w (Suc n) (dst[n := str_at w n])"
      using True by (subst fs_init_copy.simps) auto
    ultimately show ?thesis using "1.IH" [OF True] "1.prems" c by simp
  next
    case False
    then have "fs_init_copy w n dst = (n, dst)" by (subst fs_init_copy.simps) auto
    with False c "1.prems" show ?thesis by auto
  qed
qed

lemma fs_init_view:
  assumes "fs_ok fs"
  shows "fs_ok (fs_init fs)"
    and "fs_view (fs_init fs) = Some (''welcome'', 39) # replicate (MAX_FILES - 1) None"
proof -
  note len = fs_ok_length [OF assms]
  let ?fs1 = "map (\<lambda>e. e\<lparr>used := 0\<rparr>) fs"
  have f1: "fold (\<lambda>i fs. fs[i := (fs ! i)\<lparr>used := 0\<rparr>]) [0..<MAX_FILES] fs = ?fs1"
    using fold_update_all [of MAX_FILES fs "\<lambda>e. e\<lparr>used := 0\<rparr>"] len by simp
  have ok1: "fs_ok ?fs1"
    using assms by (simp add: fs_ok_def fs_shape_def fs_names_ok_def list_all_iff)
  have "(if 0 < MAX_FILES \<and> used (?fs1 ! 0) = 0 then Some 0 else None) = Some (0::nat)"
    using len by simp
  have fr: "find (\<lambda>i. used (?fs1 ! i) = 0) [0..<MAX_FILES] = Some 0"
    using len by (simp add: upt_rec)
  let ?w = "''welcome: This is MiniOS (in-memory FS)\<newline>''"
  let ?d = "snd (fs_init_copy ?w 0 (data (?fs1 ! 0)))"
  let ?e = "(?fs1 ! 0)\<lparr>used := 1, data := ?d,
              size_e := int (fst (fs_init_copy ?w 0 (data (?fs1 ! 0)))),
              name := fs_name_copy ''welcome'' 0 (name (?fs1 ! 0))\<rparr>"
  have r: "fs_init fs = ?fs1[0 := ?e]"
    by (simp only: fs_init_def f1 Let_def fr option.case case_prod_unfold)
  have cp: "fst (fs_init_copy ?w 0 (data (?fs1 ! 0))) = 39"
      "length ?d = length (data (?fs1 ! 0))"
    using fs_init_copy_len [of ?w 0 "data (?fs1 ! 0)"] by simp_all
  note nm = fs_name_copy_cstr [of "name (?fs1 ! 0)" "''welcome''"]
  note o = fs_ok_nth [OF ok1, of 0]
  show "fs_ok (fs_init fs)"
    unfolding r using ok1 o cp nm by (intro fs_ok_update) simp_all
  have "fs_view ?fs1 = replicate MAX_FILES None"
    using len by (simp add: fs_view_def o_def map_replicate_const)
  moreover have "replicate MAX_FILES None = None # replicate (MAX_FILES - 1) (None :: (string \<times> int) option)"
    by (simp flip: replicate_Suc)
  ultimately show "fs_view (fs_init fs) = Some (''welcome'', 39) # replicate (MAX_FILES - 1) None"
    unfolding r fs_view_update using o nm cp by simp
qed

lemma files_zero_ok: "fs_ok files_zero"
  by (simp add: fs_ok_def fs_shape_def fs_names_ok_def files_zero_def list_all_iff)

subsection \<open>Listing\<close>

lemma fs_entries_view: "fs_entries fs = map the (filter (\<lambda>x. x \<noteq> None) (fs_view fs))"
  by (induction fs) (simp_all add: fs_entries_def fs_view_def)

lemma fs_list_view:
  assumes "length fs = MAX_FILES"
  shows "fs_list fs t =
     fold (\<lambda>x r. case r of
                    None \<Rightarrow> None
                  | Some t \<Rightarrow>
                      (case x of
                         None \<Rightarrow> Some t
                       | Some (n, sz) \<Rightarrow>
                           kprintf ''  %s (%d bytes)\<newline>''
                             [ArgStr (Some n), ArgInt (word_of_int sz)] t))
          (fs_view fs) (kprintf ''Files:\<newline>'' [] t)"
proof -
  let ?F = "\<lambda>e r. case r of
                    None \<Rightarrow> None
                  | Some t \<Rightarrow>
                      if used e \<noteq> 0
                      then kprintf ''  %s (%d bytes)\<newline>''
                             [ArgStr (Some (cstr (name e))), ArgInt (word_of_int (size_e e))] t
                      else Some t"
  have "fs_list fs t = fold (?F \<circ> (!) fs) [0..<length fs] (kprintf ''Files:\<newline>'' [] t)"
    by (simp add: fs_list_def assms o_def)
  also have "\<dots> = fold ?F (map ((!) fs) [0..<length fs]) (kprintf ''Files:\<newline>'' [] t)"
    by (simp only: fold_map)
  also have "map ((!) fs) [0..<length fs] = fs" by (rule map_nth)
  finally show ?thesis
    by (simp add: fs_view_def fold_map o_def if_distrib [of "\<lambda>x. case_option _ _ x"] cong: if_cong option.case_cong)
qed

lemma kputi_nonneg:
  assumes "0 \<le> sint val"
  shows "kputi val 10 t =
     Some (vga_puts (if val = 0 then ''0''
                     else rev (map digit_char (digits_lsf 10 (unat val)))) t)"
  using assms kputu_digits [of 10 val t] by (simp add: kputi_def)

lemma list_line_welcome:
  "kprintf ''  %s (%d bytes)\<newline>'' [ArgStr (Some ''welcome''), ArgInt 39] t =
     Some (vga_puts ''  welcome (39 bytes)\<newline>'' t)"
  by (simp add: kprintf.simps kputi_nonneg digits_lsf.simps digit_char_nth vga_puts_def)

lemma list_line_y:
  "kprintf ''  %s (%d bytes)\<newline>'' [ArgStr (Some ''y''), ArgInt 0] t =
     Some (vga_puts ''  y (0 bytes)\<newline>'' t)"
  by (simp add: kprintf.simps kputi_nonneg vga_puts_def)

section \<open>Listing after create, create, remove\<close>

lemma view16:
  "Some (''welcome'', 39) # replicate (MAX_FILES - 1) None =
   [Some (''welcome'', 39::int), None, None, None, None, None, None, None,
    None, None, None, None, None, None, None, None]"
  by (simp add: numeral_eq_Suc)

lemma upt16: "[0..<MAX_FILES] = [0, 1, 2, 3, 4, 5, 6, 7, 8, 9, 10, 11, 12, 13, 14, 15]"
  by (simp add: upt_rec)

lemma files_x_y_rm_view:
  "fs_ok files_x_y_rm \<and>
   fs_view files_x_y_rm =
     [Some (''welcome'', 39), None, Some (''y'', 0), None, None, None, None, None,
      None, None, None, None, None, None, None, None]"
proof -
  let ?f0 = "fs_init files_zero"
  let ?f1 = "snd (fs_create ''x'' ?f0)"
  let ?f2 = "snd (fs_create ''y'' ?f1)"
  let ?f3 = "snd (fs_remove ''x'' ?f2)"
  note i = fs_init_view [OF files_zero_ok]
  have c1: "fs_ok ?f1" "v_create ''x'' (fs_view ?f0) = (fst (fs_create ''x'' ?f0), fs_view ?f1)"
    using fs_create_view [OF i(1), of "''x''"] by simp_all
  have c2: "fs_ok ?f2" "v_create ''y'' (fs_view ?f1) = (fst (fs_create ''y'' ?f1), fs_view ?f2)"
    using fs_create_view [OF c1(1), of "''y''"] by simp_all
  have c3: "fs_ok ?f3" "v_remove ''x'' (fs_view ?f2) = (fst (fs_remove ''x'' ?f2), fs_view ?f3)"
    using fs_remove_view [OF c2(1), of "''x''"] by simp_all
  have v1: "fs_view ?f1 = [Some (''welcome'', 39), Some (''x'', 0), None, None, None, None, None, None,
    None, None, None, None, None, None, None, None]"
    using c1(2) unfolding i(2) view16 by (simp add: v_create_def v_find_def upt16)
  have v2: "fs_view ?f2 = [Some (''welcome'', 39), Some (''x'', 0), Some (''y'', 0), None, None, None, None, None,
    None, None, None, None, None, None, None, None]"
    using c2(2) unfolding v1 by (simp add: v_create_def v_find_def upt16)
  have v3: "fs_view ?f3 = [Some (''welcome'', 39), None, Some (''y'', 0), None, None, None, None, None,
    None, None, None, None, None, None, None, None]"
    using c3(2) unfolding v2 by (simp add: v_remove_def v_find_def upt16)
  show ?thesis using c3(1) v3 by (simp add: files_x_y_rm_def Let_def)
qed

text \<open>
  Claim C5, as the code has it. \<^verbatim>\<open>fs_init\<close> puts the file \<open>welcome\<close> (39 bytes) in slot 0
  before the first command. Starting from that state, after \<open>create x\<close>, \<open>create y\<close> and
  \<open>remove x\<close> the listing has exactly two entries, in slot order: \<open>welcome\<close> with 39
  bytes and \<open>y\<close> with 0 bytes; \<open>x\<close> is not listed. \<^verbatim>\<open>fs_list\<close> prints them under the
  heading \<open>Files:\<close>.
\<close>

theorem list_after_create_remove:
  "fs_entries files_x_y_rm = [(''welcome'', 39), (''y'', 0)] \<and>
   (\<forall>t. fs_list files_x_y_rm t =
        Some (vga_puts ''Files:\<newline>  welcome (39 bytes)\<newline>  y (0 bytes)\<newline>'' t))"
proof -
  have len: "length files_x_y_rm = MAX_FILES" using files_x_y_rm_view by (simp add: fs_ok_length)
  have "fs_list files_x_y_rm t =
        Some (vga_puts ''Files:\<newline>  welcome (39 bytes)\<newline>  y (0 bytes)\<newline>'' t)" for t
    unfolding fs_list_view [OF len] using files_x_y_rm_view
    by (simp add: list_line_welcome list_line_y) (simp add: kprintf.simps vga_puts_def)
  then show ?thesis using files_x_y_rm_view by (simp add: fs_entries_view)
qed

text \<open>
  The claim as stated (exactly one entry, \<open>y\<close>) does not hold from the state after
  \<^verbatim>\<open>fs_init\<close>.
\<close>

theorem list_after_create_remove_counterexample:
  "length (fs_entries files_x_y_rm) = 2 \<and> hd (fs_entries files_x_y_rm) = (''welcome'', 39)"
  using files_x_y_rm_view by (simp add: fs_entries_view)

section \<open>Names longer than the name array\<close>

lemma v_find_none:
  "v_find nm v = - 1 \<longleftrightarrow> (\<forall>j<MAX_FILES. map_option fst (v ! j) \<noteq> Some nm)"
proof -
  have "v_find nm v = - 1 \<longleftrightarrow>
      find (\<lambda>i. map_option fst (v ! i) = Some nm) [0..<MAX_FILES] = None"
    by (auto simp: v_find_def split: option.splits)
  also have "\<dots> \<longleftrightarrow> (\<forall>j<MAX_FILES. map_option fst (v ! j) \<noteq> Some nm)"
    unfolding find_None_iff by auto
  finally show ?thesis .
qed

lemma v_find_neg: "v_find nm v < 0 \<longleftrightarrow> v_find nm v = - 1"
  using v_find_range [of nm v] by auto

lemma v_find_some:
  "v_find nm v = int j \<longleftrightarrow>
     j < MAX_FILES \<and> map_option fst (v ! j) = Some nm \<and>
     (\<forall>k<j. map_option fst (v ! k) \<noteq> Some nm)"
proof -
  have "v_find nm v = int j \<longleftrightarrow>
      find (\<lambda>i. map_option fst (v ! i) = Some nm) [0..<MAX_FILES] = Some j"
    by (auto simp: v_find_def split: option.splits)
  also have "\<dots> \<longleftrightarrow> j < MAX_FILES \<and> map_option fst (v ! j) = Some nm \<and>
     (\<forall>k<j. map_option fst (v ! k) \<noteq> Some nm)"
    unfolding find_Some_iff by (auto simp: nth_upt intro!: exI [of _ j])
  finally show ?thesis .
qed

lemma free_slot_some:
  "find (\<lambda>i. v ! i = None) [0..<MAX_FILES] = Some i \<longleftrightarrow>
     i < MAX_FILES \<and> v ! i = None \<and> (\<forall>k<i. v ! k \<noteq> None)"
  unfolding find_Some_iff by (auto simp: nth_upt intro!: exI [of _ i])

lemma fs_create_success:
  assumes ok: "fs_ok fs" and nm: "NUL \<notin> set nm" and cr: "0 \<le> fst (fs_create nm fs)"
  obtains i where "i < MAX_FILES" "fs_create nm fs =
      (int i, fs[i := (fs ! i)\<lparr>used := 1, size_e := 0, name := fs_name_copy nm 0 (name (fs ! i))\<rparr>])"
    "v_find nm (fs_view fs) = - 1" "fs_view fs ! i = None" "\<forall>k<i. fs_view fs ! k \<noteq> None"
    "fs_view (snd (fs_create nm fs)) = (fs_view fs)[i := Some (take (MAX_NAME - 1) nm, 0)]"
proof -
  note fv = fs_find_view [OF ok nm]
  note len = fs_ok_length [OF ok]
  from cr have nf: "\<not> 0 \<le> fs_find nm fs"
    by (auto simp: fs_create_def split: if_splits)
  with fv v_find_range [of nm "fs_view fs"] have vf: "v_find nm (fs_view fs) = - 1" by auto
  from cr nf obtain i where fr: "find (\<lambda>i. used (fs ! i) = 0) [0..<MAX_FILES] = Some i"
    by (auto simp: fs_create_def split: option.splits)
  then have i: "i < MAX_FILES" by (rule find_upt_less)
  from fr have fr': "find (\<lambda>i. fs_view fs ! i = None) [0..<MAX_FILES] = Some i"
    by (simp add: free_slot_view [OF len])
  have c: "fs_create nm fs =
      (int i, fs[i := (fs ! i)\<lparr>used := 1, size_e := 0, name := fs_name_copy nm 0 (name (fs ! i))\<rparr>])"
    using nf fr by (simp add: fs_create_def)
  have v: "fs_view (snd (fs_create nm fs)) = (fs_view fs)[i := Some (take (MAX_NAME - 1) nm, 0)]"
    using fs_create_view(1) [OF ok nm] vf fr' by (simp add: v_create_def)
  from fr' have f: "fs_view fs ! i = None" "\<forall>k<i. fs_view fs ! k \<noteq> None"
    by (simp_all add: free_slot_some)
  show ?thesis by (rule that [OF i c vf f v])
qed

text \<open>
  What \<^verbatim>\<open>fs_create\<close> does with a name longer than \<open>MAX_NAME - 1 = 15\<close> characters when
  it succeeds: the slot holds the first 15 characters and a terminator, \<^verbatim>\<open>fs_find\<close> with
  the full name then returns not-found, and \<^verbatim>\<open>fs_find\<close> with the 15-character prefix finds
  a slot holding that prefix. That slot is the new one when no used slot held the prefix
  before the call.
\<close>

theorem create_truncates_name:
  assumes ok: "fs_ok fs" and nm: "NUL \<notin> set nm" and long: "MAX_NAME - 1 < length nm"
    and cr: "0 \<le> fst (fs_create nm fs)"
  shows "let (i, fs') = fs_create nm fs; p = take (MAX_NAME - 1) nm in
           take (MAX_NAME - 1) (name (fs' ! nat i)) = p \<and>
           name (fs' ! nat i) ! (MAX_NAME - 1) = NUL \<and>
           fs_find nm fs' = - 1 \<and>
           0 \<le> fs_find p fs' \<and>
           cstr (name (fs' ! nat (fs_find p fs'))) = p \<and>
           (fs_find p fs < 0 \<longrightarrow> fs_find p fs' = i)"
proof -
  let ?p = "take (MAX_NAME - 1) nm"
  let ?v = "fs_view fs"
  from fs_create_success [OF ok nm cr] obtain i where i: "i < MAX_FILES"
    and c: "fs_create nm fs =
      (int i, fs[i := (fs ! i)\<lparr>used := 1, size_e := 0, name := fs_name_copy nm 0 (name (fs ! i))\<rparr>])"
    and vf: "v_find nm ?v = - 1" and free: "?v ! i = None"
    and v': "fs_view (snd (fs_create nm fs)) = ?v[i := Some (?p, 0)]"
    by blast
  let ?fs' = "snd (fs_create nm fs)"
  let ?v' = "?v[i := Some (?p, 0)]"
  note len = fs_ok_length [OF ok]
  note ok' = fs_create_view(2) [OF ok nm]
  have pn: "NUL \<notin> set ?p" using nm by (auto dest: in_set_takeD)
  have ne: "?p \<noteq> nm" using long by (metis length_take min.absorb2 less_imp_le nat_neq_iff)
  \<comment> \<open>the stored array\<close>
  from fs_name_copy_gen [OF fs_ok_nth(1) [OF ok i] nm, of 0] long
  have arr: "take (MAX_NAME - 1) (fs_name_copy nm 0 (name (fs ! i))) = ?p"
    "fs_name_copy nm 0 (name (fs ! i)) ! (MAX_NAME - 1) = NUL"
    by (simp_all add: min_def)
  have e: "name (?fs' ! nat (int i)) = fs_name_copy nm 0 (name (fs ! i))"
    using i len by (simp add: c)
  \<comment> \<open>the full name is not found\<close>
  have "v_find nm ?v' = - 1"
    unfolding v_find_none
  proof (intro allI impI)
    fix j assume "j < MAX_FILES"
    with vf have "map_option fst (?v ! j) \<noteq> Some nm" by (simp add: v_find_none)
    then show "map_option fst (?v' ! j) \<noteq> Some nm"
      using ne i len by (cases "j = i") simp_all
  qed
  then have full: "fs_find nm ?fs' = - 1"
    using fs_find_view [OF ok' nm] by (simp add: v')
  \<comment> \<open>the prefix is found\<close>
  have fp: "fs_find ?p ?fs' = v_find ?p ?v'"
    using fs_find_view [OF ok' pn] by (simp add: v')
  have at_i: "map_option fst (?v' ! i) = Some ?p" using i len by simp
  then have "v_find ?p ?v' \<noteq> - 1" using i by (auto simp: v_find_none)
  with v_find_range [of ?p ?v'] obtain j where j: "v_find ?p ?v' = int j"
    by (metis nonneg_int_cases)
  then have jj: "j < MAX_FILES" "map_option fst (?v' ! j) = Some ?p"
    by (simp_all add: v_find_some)
  from jj have "cstr (name (?fs' ! j)) = ?p"
    using fs_view_nth [of j ?fs'] fs_ok_length [OF ok'] unfolding v'
    by (auto split: if_splits)
  with j fp have found: "0 \<le> fs_find ?p ?fs'" "cstr (name (?fs' ! nat (fs_find ?p ?fs'))) = ?p"
    by simp_all
  \<comment> \<open>and it is the new slot when the prefix was not there before\<close>
  have new: "fs_find ?p ?fs' = int i" if "fs_find ?p fs < 0"
  proof -
    from that fs_find_view [OF ok pn] have "v_find ?p ?v = - 1" by (simp add: v_find_neg)
    then have "\<forall>k<i. map_option fst (?v' ! k) \<noteq> Some ?p"
      using i by (auto simp: v_find_none)
    with at_i i have "v_find ?p ?v' = int i" by (simp add: v_find_some)
    with fp show ?thesis by simp
  qed
  show ?thesis
    using arr e full found new by (simp add: c Let_def)
qed

lemma long_name_twice:
  fixes nm :: string
  defines "nm \<equiv> ''aaaaaaaaaaaaaaaa''"
  defines "fs1 \<equiv> snd (fs_create nm (fs_init files_zero))"
  shows "fst (fs_create nm (fs_init files_zero)) = 1"
    and "fs_find (take (MAX_NAME - 1) nm) (fs_init files_zero) = - 1"
    and "fs_find nm fs1 = - 1"
    and "fs_find (take (MAX_NAME - 1) nm) fs1 = 1"
    and "fst (fs_create nm fs1) = 2"
    and "fs_find (take (MAX_NAME - 1) nm) (snd (fs_create nm fs1)) = 1"
    and "fs_find nm (snd (fs_create nm fs1)) = - 1"
    and "fs_entries (snd (fs_create nm fs1)) =
           [(''welcome'', 39), (''aaaaaaaaaaaaaaa'', 0), (''aaaaaaaaaaaaaaa'', 0)]"
proof -
  let ?f0 = "fs_init files_zero"
  let ?f2 = "snd (fs_create nm fs1)"
  note i = fs_init_view [OF files_zero_ok]
  have n: "NUL \<notin> set nm" "NUL \<notin> set (take (MAX_NAME - 1) nm)" by (simp_all add: nm_def)
  have c1: "fs_ok fs1" "v_create nm (fs_view ?f0) = (fst (fs_create nm ?f0), fs_view fs1)"
    using fs_create_view [OF i(1) n(1)] by (simp_all add: fs1_def)
  have c2: "fs_ok ?f2" "v_create nm (fs_view fs1) = (fst (fs_create nm fs1), fs_view ?f2)"
    using fs_create_view [OF c1(1) n(1)] by simp_all
  have v1: "fst (fs_create nm ?f0) = 1 \<and>
    fs_view fs1 = [Some (''welcome'', 39), Some (''aaaaaaaaaaaaaaa'', 0), None, None, None,
      None, None, None, None, None, None, None, None, None, None, None]"
    using c1(2) unfolding i(2) view16 by (simp add: v_create_def v_find_def upt16 nm_def)
  have v2: "fst (fs_create nm fs1) = 2 \<and>
    fs_view ?f2 = [Some (''welcome'', 39), Some (''aaaaaaaaaaaaaaa'', 0),
      Some (''aaaaaaaaaaaaaaa'', 0), None, None,
      None, None, None, None, None, None, None, None, None, None, None]"
    using c2(2) v1 by (simp add: v_create_def v_find_def upt16 nm_def)
  show "fst (fs_create nm ?f0) = 1" using v1 by simp
  show "fs_find (take (MAX_NAME - 1) nm) ?f0 = - 1"
    unfolding fs_find_view [OF i(1) n(2)] i(2) view16 by (simp add: v_find_def upt16 nm_def)
  show "fs_find nm fs1 = - 1"
    unfolding fs_find_view [OF c1(1) n(1)] using v1 by (simp add: v_find_def upt16 nm_def)
  show "fs_find (take (MAX_NAME - 1) nm) fs1 = 1"
    unfolding fs_find_view [OF c1(1) n(2)] using v1 by (simp add: v_find_def upt16 nm_def)
  show "fst (fs_create nm fs1) = 2" using v2 by simp
  show "fs_find (take (MAX_NAME - 1) nm) ?f2 = 1"
    unfolding fs_find_view [OF c2(1) n(2)] using v2 by (simp add: v_find_def upt16 nm_def)
  show "fs_find nm ?f2 = - 1"
    unfolding fs_find_view [OF c2(1) n(1)] using v2 by (simp add: v_find_def upt16 nm_def)
  show "fs_entries ?f2 = [(''welcome'', 39), (''aaaaaaaaaaaaaaa'', 0), (''aaaaaaaaaaaaaaa'', 0)]"
    using v2 by (simp add: fs_entries_view)
qed

theorem create_truncates_name_boot:
  "fs_find ''aaaaaaaaaaaaaaaa'' (snd (fs_create ''aaaaaaaaaaaaaaaa'' (fs_init files_zero))) = - 1 \<and>
   fs_find ''aaaaaaaaaaaaaaa'' (snd (fs_create ''aaaaaaaaaaaaaaaa'' (fs_init files_zero))) = 1 \<and>
   fst (fs_create ''aaaaaaaaaaaaaaaa'' (fs_init files_zero)) = 1"
  using create_truncates_name [of "fs_init files_zero" "''aaaaaaaaaaaaaaaa''"]
    fs_init_view(1) [OF files_zero_ok] long_name_twice(1,2)
  by (simp add: case_prod_unfold Let_def)

text \<open>
  Claim C10 says that after \<^verbatim>\<open>fs_create\<close> with a name longer than 15 characters,
  \<^verbatim>\<open>fs_find\<close> with the 15-character prefix finds the newly created slot. The code
  breaks this when the same 16-character name is created twice from the table that
  \<^verbatim>\<open>fs_init\<close> leaves. The first call takes slot 1. The second call is not refused by the
  \<open>already exists\<close> test of \<^verbatim>\<open>fs_create\<close>, which looks up the full name while the table
  holds 15 characters of it: it returns slot 2 instead of \<open>-1\<close>. The table then lists two
  files under one name, and \<^verbatim>\<open>fs_find\<close> with the prefix returns the older slot 1, not
  the slot 2 just created.
\<close>

theorem create_long_name_twice:
  "fst (fs_create ''aaaaaaaaaaaaaaaa'' (fs_init files_zero)) = 1 \<and>
   fst (fs_create ''aaaaaaaaaaaaaaaa''
          (snd (fs_create ''aaaaaaaaaaaaaaaa'' (fs_init files_zero)))) = 2 \<and>
   fs_find ''aaaaaaaaaaaaaaaa''
     (snd (fs_create ''aaaaaaaaaaaaaaaa''
            (snd (fs_create ''aaaaaaaaaaaaaaaa'' (fs_init files_zero))))) = - 1 \<and>
   fs_find ''aaaaaaaaaaaaaaa''
     (snd (fs_create ''aaaaaaaaaaaaaaaa''
            (snd (fs_create ''aaaaaaaaaaaaaaaa'' (fs_init files_zero))))) = 1 \<and>
   fs_entries
     (snd (fs_create ''aaaaaaaaaaaaaaaa''
            (snd (fs_create ''aaaaaaaaaaaaaaaa'' (fs_init files_zero))))) =
     [(''welcome'', 39), (''aaaaaaaaaaaaaaa'', 0), (''aaaaaaaaaaaaaaa'', 0)]"
  using long_name_twice(1,5,6,7,8) by simp

section \<open>Writing a file\<close>

lemma fs_write_copy_closed:
  assumes "nat (min len (int MAX_FILE_SIZE)) \<le> length src"
    and "nat (min len (int MAX_FILE_SIZE)) \<le> length dst"
    and "n \<le> nat (min len (int MAX_FILE_SIZE))"
  shows "fs_write_copy src len n dst =
     (nat (min len (int MAX_FILE_SIZE)),
      take n dst @ drop n (take (nat (min len (int MAX_FILE_SIZE))) src) @
        drop (nat (min len (int MAX_FILE_SIZE))) dst)"
  using assms
proof (induction src len n dst rule: fs_write_copy.induct)
  case (1 src len n dst)
  let ?m = "nat (min len (int MAX_FILE_SIZE))"
  let ?c = "int n < len \<and> n < MAX_FILE_SIZE"
  have c: "?c \<longleftrightarrow> n < ?m" by auto
  show ?case
  proof (cases ?c)
    case True
    with c have n: "n < ?m" by simp
    let ?dst = "dst[n := src ! n]"
    have 1: "fs_write_copy src len n dst = fs_write_copy src len (Suc n) ?dst"
      using True by (subst fs_write_copy.simps) auto
    have 2: "fs_write_copy src len (Suc n) ?dst =
        (?m, take (Suc n) ?dst @ drop (Suc n) (take ?m src) @ drop ?m ?dst)"
      using "1.IH" [OF True] "1.prems" n by simp
    have 3: "take (Suc n) ?dst = take n dst @ [src ! n]"
      using n "1.prems"(2) by (simp add: take_Suc_conv_app_nth)
    have 4: "drop ?m ?dst = drop ?m dst" using n by simp
    have 5: "src ! n # drop (Suc n) (take ?m src) = drop n (take ?m src)"
      using n "1.prems"(1) by (simp add: Cons_nth_drop_Suc [symmetric])
    show ?thesis unfolding 1 2 3 4 using 5 by simp
  next
    case False
    with c "1.prems"(3) have n: "n = ?m" by simp
    have "fs_write_copy src len n dst = (n, dst)"
      using False by (subst fs_write_copy.simps) auto
    then show ?thesis using n "1.prems"(2) by simp
  qed
qed

lemma fs_write_copy_0:
  assumes "nat (min len (int MAX_FILE_SIZE)) \<le> length src"
    and "length dst = MAX_FILE_SIZE"
  shows "fs_write_copy src len 0 dst =
     (nat (min len (int MAX_FILE_SIZE)),
      take (nat (min len (int MAX_FILE_SIZE))) src @ drop (nat (min len (int MAX_FILE_SIZE))) dst)"
  using fs_write_copy_closed [OF assms(1), of dst 0] assms(2) by simp

lemma fs_shape_nth:
  assumes "fs_shape fs" "i < MAX_FILES"
  shows "length (name (fs ! i)) = MAX_NAME" "length (data (fs ! i)) = MAX_FILE_SIZE"
  using assms by (simp_all add: fs_shape_def list_all_length)

lemma fs_find_cases:
  obtains (none) "fs_find nm fs = - 1"
    "\<forall>i<MAX_FILES. \<not> (used (fs ! i) \<noteq> 0 \<and> fs_match (fs ! i) nm)"
  | (found) i where "fs_find nm fs = int i" "i < MAX_FILES" "used (fs ! i) \<noteq> 0"
      "fs_match (fs ! i) nm" "\<forall>k<i. \<not> (used (fs ! k) \<noteq> 0 \<and> fs_match (fs ! k) nm)"
proof (cases "find (\<lambda>i. used (fs ! i) \<noteq> 0 \<and> fs_match (fs ! i) nm) [0..<MAX_FILES]")
  case None
  then have "fs_find nm fs = - 1" by (simp add: fs_find_def)
  moreover from None have "\<forall>i<MAX_FILES. \<not> (used (fs ! i) \<noteq> 0 \<and> fs_match (fs ! i) nm)"
    unfolding find_None_iff by auto
  ultimately show ?thesis by (rule none)
next
  case (Some i)
  then have f: "fs_find nm fs = int i" by (simp add: fs_find_def)
  from Some have "i < MAX_FILES \<and> used (fs ! i) \<noteq> 0 \<and> fs_match (fs ! i) nm \<and>
      (\<forall>k<i. \<not> (used (fs ! k) \<noteq> 0 \<and> fs_match (fs ! k) nm))"
    unfolding find_Some_iff by (auto simp: nth_upt)
  with f show ?thesis by (intro found [of i]) auto
qed

lemma fs_create_cases:
  assumes "fs_find nm fs < 0"
  obtains (full) "fs_create nm fs = (- 1, fs)" "\<forall>i<MAX_FILES. used (fs ! i) \<noteq> 0"
  | (made) i where "i < MAX_FILES" "used (fs ! i) = 0"
      "fs_create nm fs =
        (int i, fs[i := (fs ! i)\<lparr>used := 1, size_e := 0,
                                 name := fs_name_copy nm 0 (name (fs ! i))\<rparr>])"
proof (cases "find (\<lambda>i. used (fs ! i) = 0) [0..<MAX_FILES]")
  case None
  then have "fs_create nm fs = (- 1, fs)" using assms by (simp add: fs_create_def)
  moreover from None have "\<forall>i<MAX_FILES. used (fs ! i) \<noteq> 0"
    unfolding find_None_iff by auto
  ultimately show ?thesis by (rule full)
next
  case (Some i)
  then have c: "fs_create nm fs =
        (int i, fs[i := (fs ! i)\<lparr>used := 1, size_e := 0,
                                 name := fs_name_copy nm 0 (name (fs ! i))\<rparr>])"
    using assms by (simp add: fs_create_def)
  from Some have "i < MAX_FILES \<and> used (fs ! i) = 0"
    unfolding find_Some_iff by (auto simp: nth_upt)
  with c show ?thesis by (intro made [of i]) auto
qed

lemma fs_find_eqI:
  assumes "i < MAX_FILES" "used (fs ! i) \<noteq> 0" "fs_match (fs ! i) nm"
    and "\<forall>k<i. \<not> (used (fs ! k) \<noteq> 0 \<and> fs_match (fs ! k) nm)"
  shows "fs_find nm fs = int i"
proof -
  have "find (\<lambda>i. used (fs ! i) \<noteq> 0 \<and> fs_match (fs ! i) nm) [0..<MAX_FILES] = Some i"
    unfolding find_Some_iff using assms by (auto simp: nth_upt intro!: exI [of _ i])
  then show ?thesis by (simp add: fs_find_def)
qed

lemma fs_match_cong:
  "name e' = name e \<Longrightarrow> used e' = used e \<Longrightarrow> fs_match e' nm = fs_match e nm"
proof -
  assume a: "name e' = name e" "used e' = used e"
  then have n: "name_at e' k = name_at e k" for k by (simp add: name_at_def)
  have "fs_find_scan e' nm k = fs_find_scan e nm k" for k
  proof (induction "MAX_NAME - k" arbitrary: k rule: less_induct)
    case less
    let ?c = "k < MAX_NAME \<and> name_at e k \<noteq> NUL \<and> str_at nm k \<noteq> NUL \<and>
        name_at e k = str_at nm k"
    show ?case
    proof (cases ?c)
      case True
      then have "fs_find_scan e' nm k = fs_find_scan e' nm (Suc k)"
        by (subst fs_find_scan.simps) (auto simp: n)
      moreover have "fs_find_scan e nm k = fs_find_scan e nm (Suc k)"
        using True by (subst fs_find_scan.simps) auto
      moreover have "fs_find_scan e' nm (Suc k) = fs_find_scan e nm (Suc k)"
        using True by (intro less.hyps) arith
      ultimately show ?thesis by simp
    next
      case False
      then have "fs_find_scan e' nm k = k"
        by (subst fs_find_scan.simps) (auto simp: n)
      moreover have "fs_find_scan e nm k = k"
        using False by (subst fs_find_scan.simps) auto
      ultimately show ?thesis by simp
    qed
  qed
  then show ?thesis by (simp add: fs_match_def n)
qed

lemma fs_find_cong:
  assumes "\<forall>j<MAX_FILES. name (fs' ! j) = name (fs ! j) \<and> used (fs' ! j) = used (fs ! j)"
  shows "fs_find nm fs' = fs_find nm fs"
proof -
  have "(used (fs' ! i) \<noteq> 0 \<and> fs_match (fs' ! i) nm) =
        (used (fs ! i) \<noteq> 0 \<and> fs_match (fs ! i) nm)" if "i \<in> set [0..<MAX_FILES]" for i
  proof -
    from that assms have "name (fs' ! i) = name (fs ! i)" "used (fs' ! i) = used (fs ! i)"
      by simp_all
    then show ?thesis using fs_match_cong [of "fs' ! i" "fs ! i" nm] by simp
  qed
  then have "find (\<lambda>i. used (fs' ! i) \<noteq> 0 \<and> fs_match (fs' ! i) nm) [0..<MAX_FILES] =
        find (\<lambda>i. used (fs ! i) \<noteq> 0 \<and> fs_match (fs ! i) nm) [0..<MAX_FILES]"
    by (intro find_cong) simp_all
  then show ?thesis by (simp add: fs_find_def)
qed

lemma fs_shape_update:
  assumes "fs_shape fs" "length (name e) = MAX_NAME" "length (data e) = MAX_FILE_SIZE"
  shows "fs_shape (fs[i := e])"
  using assms
  by (auto simp: fs_shape_def list_all_iff dest!: set_update_subset_insert [THEN subsetD])

text \<open>What \<^verbatim>\<open>fs_write\<close> does once it has a slot.\<close>

lemma fs_write_at:
  assumes "nat (min len (int MAX_FILE_SIZE)) \<le> length src"
    and "length (data (fs1 ! i)) = MAX_FILE_SIZE"
  defines "m \<equiv> nat (min len (int MAX_FILE_SIZE))"
  shows "(let (n, d) = fs_write_copy src len 0 (data (fs1 ! i))
          in (int n, fs1[i := (fs1 ! i)\<lparr>data := d, size_e := int n\<rparr>])) =
         (int m, fs1[i := (fs1 ! i)\<lparr>data := take m src @ drop m (data (fs1 ! i)),
                                     size_e := int m\<rparr>])"
  using fs_write_copy_0 [OF assms(1,2)] by (simp add: m_def)

lemma fs_find_noneI:
  assumes "\<forall>i<MAX_FILES. \<not> (used (fs ! i) \<noteq> 0 \<and> fs_match (fs ! i) nm)"
  shows "fs_find nm fs = - 1"
proof -
  have "find (\<lambda>i. used (fs ! i) \<noteq> 0 \<and> fs_match (fs ! i) nm) [0..<MAX_FILES] = None"
    unfolding find_None_iff using assms by auto
  then show ?thesis by (simp add: fs_find_def)
qed

text \<open>The three ways through \<^verbatim>\<open>fs_write\<close>, with the table each leaves.\<close>

lemma fs_write_cases:
  assumes sh: "fs_shape fs" and src: "nat (min len (int MAX_FILE_SIZE)) \<le> length src"
  defines "m \<equiv> nat (min len (int MAX_FILE_SIZE))"
  obtains (failed) "fs_find nm fs = - 1" "fs_create nm fs = (- 1, fs)"
      "\<forall>i<MAX_FILES. used (fs ! i) \<noteq> 0" "fs_write nm src len fs = (- 1, fs)"
  | (found) i where "fs_find nm fs = int i" "i < MAX_FILES" "used (fs ! i) \<noteq> 0"
      "fs_write nm src len fs =
         (int m, fs[i := (fs ! i)\<lparr>data := take m src @ drop m (data (fs ! i)),
                                  size_e := int m\<rparr>])"
  | (made) i where "fs_find nm fs = - 1"
      "\<forall>k<MAX_FILES. \<not> (used (fs ! k) \<noteq> 0 \<and> fs_match (fs ! k) nm)"
      "fst (fs_create nm fs) = int i" "i < MAX_FILES" "used (fs ! i) = 0"
      "fs_write nm src len fs =
         (int m, fs[i := (fs ! i)\<lparr>used := 1,
                                  name := fs_name_copy nm 0 (name (fs ! i)),
                                  data := take m src @ drop m (data (fs ! i)),
                                  size_e := int m\<rparr>])"
proof (cases rule: fs_find_cases [of nm fs])
  case (found i)
  have d: "length (data (fs ! i)) = MAX_FILE_SIZE" by (rule fs_shape_nth(2) [OF sh found(2)])
  have "fs_write nm src len fs =
      (int m, fs[i := (fs ! i)\<lparr>data := take m src @ drop m (data (fs ! i)), size_e := int m\<rparr>])"
    using found(1) fs_write_at [OF src d] by (simp add: fs_write_def m_def)
  with found(1,2,3) show ?thesis by (rule that(2))
next
  case none
  then have nf: "fs_find nm fs < 0" by simp
  from sh have l: "length fs = MAX_FILES" by (simp add: fs_shape_def)
  from nf show ?thesis
  proof (cases rule: fs_create_cases)
    case full
    with nf have "fs_write nm src len fs = (- 1, fs)" by (simp add: fs_write_def)
    with none(1) full show ?thesis by (intro that(1))
  next
    case (made i)
    let ?fs1 = "fs[i := (fs ! i)\<lparr>used := 1, size_e := 0,
                               name := fs_name_copy nm 0 (name (fs ! i))\<rparr>]"
    have d: "length (data (?fs1 ! i)) = MAX_FILE_SIZE"
      using made(1) l fs_shape_nth(2) [OF sh made(1)] by simp
    have "fs_write nm src len fs =
        (int m, fs[i := (fs ! i)\<lparr>used := 1,
                                  name := fs_name_copy nm 0 (name (fs ! i)),
                                  data := take m src @ drop m (data (fs ! i)),
                                  size_e := int m\<rparr>])"
      using nf made(1,3) l fs_write_at [OF src d] by (simp add: fs_write_def m_def)
    moreover have "fst (fs_create nm fs) = int i" using made(3) by simp
    ultimately show ?thesis using none made(1,2) by (intro that(3) [of i])
  qed
qed

text \<open>
  Claim C3 (\<^verbatim>\<open>fs_write\<close>), for a byte count \<open>len \<ge> 0\<close> and a source holding the bytes
  to copy. When no used slot has the name, \<^verbatim>\<open>fs_create\<close> is tried and fails exactly when
  the table is full; then \<^verbatim>\<open>fs_write\<close> returns \<open>-1\<close> and leaves the table as it was.
  Otherwise, with \<open>idx\<close> the slot found or created, it returns
  \<open>min len MAX_FILE_SIZE\<close>, the slot's size is that count, the first that many bytes
  of its buffer are those of the source, and the rest of the buffer is unchanged. No
  other slot changes. A slot that was found keeps its name and is still the one found
  under the name. A slot that is created was unused before and is used after; it holds
  the name as \<^verbatim>\<open>fs_create\<close> stores it (the first \<open>MAX_NAME - 1\<close> characters), and for a
  name that fits it is the slot found under the name afterwards. In particular a write
  of 2 bytes to a name not in the table, with a slot free, returns 2 and creates the
  file: a slot unused before, now used, holding the name, the 2 bytes and size 2.
\<close>

theorem fs_write_spec:
  assumes sh: "fs_shape fs" and len: "0 \<le> len"
    and src: "nat (min len (int MAX_FILE_SIZE)) \<le> length src"
  shows
    "(fs_find nm fs < 0 \<longrightarrow>
        (fst (fs_create nm fs) < 0 \<longleftrightarrow> (\<forall>i<MAX_FILES. used (fs ! i) \<noteq> 0))) \<and>
     (fs_find nm fs < 0 \<and> fst (fs_create nm fs) < 0 \<longrightarrow> fs_write nm src len fs = (- 1, fs)) \<and>
     (0 \<le> fs_find nm fs \<or> 0 \<le> fst (fs_create nm fs) \<longrightarrow>
        (let idx = nat (if 0 \<le> fs_find nm fs then fs_find nm fs else fst (fs_create nm fs));
             (r, fs') = fs_write nm src len fs
         in r = min len (int MAX_FILE_SIZE) \<and> size_e (fs' ! idx) = r \<and> used (fs' ! idx) \<noteq> 0 \<and>
            take (nat r) (data (fs' ! idx)) = take (nat r) src \<and>
            drop (nat r) (data (fs' ! idx)) = drop (nat r) (data (fs ! idx)) \<and>
            idx < MAX_FILES \<and> length fs' = MAX_FILES \<and>
            (\<forall>k<MAX_FILES. k \<noteq> idx \<longrightarrow> fs' ! k = fs ! k) \<and>
            (0 \<le> fs_find nm fs \<longrightarrow>
               name (fs' ! idx) = name (fs ! idx) \<and> fs_find nm fs' = int idx) \<and>
            (fs_find nm fs < 0 \<longrightarrow>
               used (fs ! idx) = 0 \<and>
               (NUL \<notin> set nm \<longrightarrow>
                  cstr (name (fs' ! idx)) = take (MAX_NAME - 1) nm \<and>
                  (length nm < MAX_NAME \<longrightarrow> fs_find nm fs' = int idx))))) \<and>
     (fs_find nm fs < 0 \<and> 0 \<le> fst (fs_create nm fs) \<and> len = 2 \<longrightarrow>
        fst (fs_write nm src len fs) = 2 \<and>
        size_e (snd (fs_write nm src len fs) ! nat (fst (fs_create nm fs))) = 2 \<and>
        used (snd (fs_write nm src len fs) ! nat (fst (fs_create nm fs))) \<noteq> 0 \<and>
        used (fs ! nat (fst (fs_create nm fs))) = 0 \<and>
        take 2 (data (snd (fs_write nm src len fs) ! nat (fst (fs_create nm fs)))) = take 2 src \<and>
        (NUL \<notin> set nm \<longrightarrow>
           cstr (name (snd (fs_write nm src len fs) ! nat (fst (fs_create nm fs)))) =
             take (MAX_NAME - 1) nm \<and>
           (length nm < MAX_NAME \<longrightarrow>
              fs_find nm (snd (fs_write nm src len fs)) = fst (fs_create nm fs))))"
proof -
  let ?m = "nat (min len (int MAX_FILE_SIZE))"
  from sh have l: "length fs = MAX_FILES" by (simp add: fs_shape_def)
  from len have m: "int ?m = min len (int MAX_FILE_SIZE)" by simp
  have t: "take ?m (take ?m src @ drop ?m d) = take ?m src"
    "drop ?m (take ?m src @ drop ?m d) = drop ?m d" if "length d = MAX_FILE_SIZE" for d
    using src that by simp_all
  have main:
    "(fs_find nm fs < 0 \<longrightarrow>
        (fst (fs_create nm fs) < 0 \<longleftrightarrow> (\<forall>i<MAX_FILES. used (fs ! i) \<noteq> 0))) \<and>
     (fs_find nm fs < 0 \<and> fst (fs_create nm fs) < 0 \<longrightarrow> fs_write nm src len fs = (- 1, fs)) \<and>
     (0 \<le> fs_find nm fs \<or> 0 \<le> fst (fs_create nm fs) \<longrightarrow>
        (let idx = nat (if 0 \<le> fs_find nm fs then fs_find nm fs else fst (fs_create nm fs));
             (r, fs') = fs_write nm src len fs
         in r = min len (int MAX_FILE_SIZE) \<and> size_e (fs' ! idx) = r \<and> used (fs' ! idx) \<noteq> 0 \<and>
            take (nat r) (data (fs' ! idx)) = take (nat r) src \<and>
            drop (nat r) (data (fs' ! idx)) = drop (nat r) (data (fs ! idx)) \<and>
            idx < MAX_FILES \<and> length fs' = MAX_FILES \<and>
            (\<forall>k<MAX_FILES. k \<noteq> idx \<longrightarrow> fs' ! k = fs ! k) \<and>
            (0 \<le> fs_find nm fs \<longrightarrow>
               name (fs' ! idx) = name (fs ! idx) \<and> fs_find nm fs' = int idx) \<and>
            (fs_find nm fs < 0 \<longrightarrow>
               used (fs ! idx) = 0 \<and>
               (NUL \<notin> set nm \<longrightarrow>
                  cstr (name (fs' ! idx)) = take (MAX_NAME - 1) nm \<and>
                  (length nm < MAX_NAME \<longrightarrow> fs_find nm fs' = int idx)))))"
    using sh src
  proof (cases rule: fs_write_cases [where nm = nm])
    case failed
    then show ?thesis by simp
  next
    case (found i)
    let ?e = "(fs ! i)\<lparr>data := take ?m src @ drop ?m (data (fs ! i)), size_e := int ?m\<rparr>"
    note d = fs_shape_nth(2) [OF sh found(2)]
    have "fs_find nm (fs[i := ?e]) = fs_find nm fs"
      using found(2) by (intro fs_find_cong) (auto simp: nth_list_update l)
    with found(1) have f1: "fs_find nm (fs[i := ?e]) = int i" by simp
    show ?thesis
      unfolding found(1,4) using found(2,3) l m t [OF d] f1 by (simp add: Let_def)
  next
    case (made i)
    let ?e = "(fs ! i)\<lparr>used := 1, name := fs_name_copy nm 0 (name (fs ! i)),
                        data := take ?m src @ drop ?m (data (fs ! i)), size_e := int ?m\<rparr>"
    note d = fs_shape_nth(2) [OF sh made(4)]
    have c: "cstr (fs_name_copy nm 0 (name (fs ! i))) = take (MAX_NAME - 1) nm"
      if "NUL \<notin> set nm"
      by (rule fs_name_copy_cstr(2) [OF fs_shape_nth(1) [OF sh made(4)] that])
    have f1: "fs_find nm (fs[i := ?e]) = int i" if nm: "NUL \<notin> set nm" "length nm < MAX_NAME"
    proof -
      note nc = fs_name_copy_cstr [OF fs_shape_nth(1) [OF sh made(4)] nm(1)]
      have "fs_match ?e nm"
        using nc nm(2) by (subst fs_match_iff) (simp_all add: nm(1))
      moreover have "\<forall>k<i. \<not> (used (fs[i := ?e] ! k) \<noteq> 0 \<and> fs_match (fs[i := ?e] ! k) nm)"
        using made(2,4) by simp
      ultimately show ?thesis
        using made(4) l by (intro fs_find_eqI) simp_all
    qed
    have a: "\<not> (\<forall>i<MAX_FILES. used (fs ! i) \<noteq> 0)" using made(4,5) by blast
    show ?thesis
      unfolding made(1,3,6) using made(4,5) l m t [OF d] c f1 a by (simp add: Let_def)
  qed
  have "fst (fs_write nm src len fs) = 2 \<and>
        size_e (snd (fs_write nm src len fs) ! nat (fst (fs_create nm fs))) = 2 \<and>
        used (snd (fs_write nm src len fs) ! nat (fst (fs_create nm fs))) \<noteq> 0 \<and>
        used (fs ! nat (fst (fs_create nm fs))) = 0 \<and>
        take 2 (data (snd (fs_write nm src len fs) ! nat (fst (fs_create nm fs)))) = take 2 src \<and>
        (NUL \<notin> set nm \<longrightarrow>
           cstr (name (snd (fs_write nm src len fs) ! nat (fst (fs_create nm fs)))) =
             take (MAX_NAME - 1) nm \<and>
           (length nm < MAX_NAME \<longrightarrow>
              fs_find nm (snd (fs_write nm src len fs)) = fst (fs_create nm fs)))"
    if "fs_find nm fs < 0" "0 \<le> fst (fs_create nm fs)" "len = 2"
    using main that by (auto simp: Let_def case_prod_unfold)
  with main show ?thesis by blast
qed

lemma fs_ok_shape: "fs_ok fs \<Longrightarrow> fs_shape fs"
  by (simp add: fs_ok_def)

lemma boot_files_b:
  "fs_find ''b'' (fs_init files_zero) = - 1" "fst (fs_create ''b'' (fs_init files_zero)) = 1"
  "fs_find ''welcome'' (fs_init files_zero) = 0"
proof -
  note i = fs_init_view [OF files_zero_ok]
  show "fs_find ''b'' (fs_init files_zero) = - 1"
    unfolding fs_find_view [OF i(1), of "''b''", simplified] i(2) view16
    by (simp add: v_find_def upt16)
  show "fs_find ''welcome'' (fs_init files_zero) = 0"
    unfolding fs_find_view [OF i(1), of "''welcome''", simplified] i(2) view16
    by (simp add: v_find_def upt16)
  have "v_create ''b'' (fs_view (fs_init files_zero)) =
      (fst (fs_create ''b'' (fs_init files_zero)), fs_view (snd (fs_create ''b'' (fs_init files_zero))))"
    using fs_create_view(1) [OF i(1), of "''b''"] by simp
  then show "fst (fs_create ''b'' (fs_init files_zero)) = 1"
    unfolding i(2) view16 by (simp add: v_create_def v_find_def upt16)
qed

lemma boot_files_long:
  "fs_find ''aaaaaaaaaaaaaaaa'' (fs_init files_zero) = - 1"
proof -
  note i = fs_init_view [OF files_zero_ok]
  show ?thesis
    unfolding fs_find_view [OF i(1), of "''aaaaaaaaaaaaaaaa''", simplified] i(2) view16
    by (simp add: v_find_def upt16)
qed

theorem fs_write_spec_witness:
  "fst (fs_write ''b'' ''hi'' 2 (fs_init files_zero)) = 2 \<and>
   size_e (snd (fs_write ''b'' ''hi'' 2 (fs_init files_zero)) ! 1) = 2 \<and>
   take 2 (data (snd (fs_write ''b'' ''hi'' 2 (fs_init files_zero)) ! 1)) = ''hi'' \<and>
   used (fs_init files_zero ! 1) = 0 \<and>
   used (snd (fs_write ''b'' ''hi'' 2 (fs_init files_zero)) ! 1) \<noteq> 0 \<and>
   cstr (name (snd (fs_write ''b'' ''hi'' 2 (fs_init files_zero)) ! 1)) = ''b'' \<and>
   fs_find ''b'' (snd (fs_write ''b'' ''hi'' 2 (fs_init files_zero))) = 1 \<and>
   snd (fs_write ''b'' ''hi'' 2 (fs_init files_zero)) ! 0 = fs_init files_zero ! 0 \<and>
   fst (fs_write ''welcome'' (replicate 600 (CHR ''z'')) 600 (fs_init files_zero)) = 512 \<and>
   size_e (snd (fs_write ''welcome'' (replicate 600 (CHR ''z'')) 600 (fs_init files_zero)) ! 0) = 512 \<and>
   fs_find ''welcome''
     (snd (fs_write ''welcome'' (replicate 600 (CHR ''z'')) 600 (fs_init files_zero))) = 0 \<and>
   cstr (name (snd (fs_write ''aaaaaaaaaaaaaaaa'' ''hi'' 2 (fs_init files_zero)) ! 1)) =
     ''aaaaaaaaaaaaaaa''"
  using
    fs_write_spec [OF fs_ok_shape [OF fs_init_view(1) [OF files_zero_ok]], of 2 "''hi''" "''b''"]
    fs_write_spec [OF fs_ok_shape [OF fs_init_view(1) [OF files_zero_ok]], of 600
      "replicate 600 (CHR ''z'')" "''welcome''"]
    fs_write_spec [OF fs_ok_shape [OF fs_init_view(1) [OF files_zero_ok]], of 2 "''hi''"
      "''aaaaaaaaaaaaaaaa''"]
    boot_files_b boot_files_long long_name_twice(1)
  by (auto simp: Let_def case_prod_unfold)

section \<open>Saving twice from the editor\<close>

lemma fs_write_at_buf:
  assumes "length buf \<le> MAX_FILE_SIZE" "length (data (fs1 ! i)) = MAX_FILE_SIZE"
  shows "(let (n, d) = fs_write_copy buf (int (length buf)) 0 (data (fs1 ! i))
          in (int n, fs1[i := (fs1 ! i)\<lparr>data := d, size_e := int n\<rparr>])) =
         (int (length buf),
          fs1[i := (fs1 ! i)\<lparr>data := buf @ drop (length buf) (data (fs1 ! i)),
                              size_e := int (length buf)\<rparr>])"
proof -
  have mm: "nat (min (int (length buf)) (int MAX_FILE_SIZE)) = length buf"
    using assms(1) by simp
  then have "nat (min (int (length buf)) (int MAX_FILE_SIZE)) \<le> length buf" by simp
  from fs_write_at [OF this assms(2)] show ?thesis unfolding mm by simp
qed

text \<open>Writing again what a slot already holds changes nothing.\<close>

lemma fs_write_again:
  assumes sh: "fs_shape fs" and f: "fs_find nm fs = int i"
    and m: "length buf \<le> MAX_FILE_SIZE"
    and sz: "size_e (fs ! i) = int (length buf)"
    and d: "take (length buf) (data (fs ! i)) = buf"
  shows "fs_write nm buf (int (length buf)) fs = (int (length buf), fs)"
proof -
  from f have i: "i < MAX_FILES"
    by (cases rule: fs_find_cases [of nm fs]) simp_all
  from sh have l: "length fs = MAX_FILES" by (simp add: fs_shape_def)
  have "fs_write nm buf (int (length buf)) fs =
      (int (length buf),
       fs[i := (fs ! i)\<lparr>data := buf @ drop (length buf) (data (fs ! i)),
                        size_e := int (length buf)\<rparr>])"
    using f fs_write_at_buf [OF m fs_shape_nth(2) [OF sh i]]
    by (simp add: fs_write_def)
  moreover have "buf @ drop (length buf) (data (fs ! i)) = data (fs ! i)"
    using append_take_drop_id [of "length buf" "data (fs ! i)"] by (simp only: d)
  ultimately show ?thesis using sz i l by (simp add: list_update_same_conv)
qed

lemma fs_write_idem:
  assumes sh: "fs_shape fs" and nm: "NUL \<notin> set nm" "length nm < MAX_NAME"
    and m: "length buf \<le> MAX_FILE_SIZE"
  shows "fs_write nm buf (int (length buf)) (snd (fs_write nm buf (int (length buf)) fs)) =
         fs_write nm buf (int (length buf)) fs"
proof -
  let ?L = "int (length buf)"
  let ?n = "length buf"
  from sh have l: "length fs = MAX_FILES" by (simp add: fs_shape_def)
  show ?thesis
  proof (cases rule: fs_find_cases [of nm fs])
    case (found i)
    let ?e = "(fs ! i)\<lparr>data := buf @ drop ?n (data (fs ! i)), size_e := ?L\<rparr>"
    have w: "fs_write nm buf ?L fs = (?L, fs[i := ?e])"
      using found(1) fs_write_at_buf [OF m fs_shape_nth(2) [OF sh found(2)]]
      by (simp add: fs_write_def)
    have sh1: "fs_shape (fs[i := ?e])"
      using fs_shape_nth [OF sh found(2)] m by (intro fs_shape_update [OF sh]) simp_all
    have "fs_find nm (fs[i := ?e]) = fs_find nm fs"
      using found(2) by (intro fs_find_cong) (auto simp: nth_list_update l)
    with found(1) have f1: "fs_find nm (fs[i := ?e]) = int i" by simp
    have "fs_write nm buf ?L (fs[i := ?e]) = (?L, fs[i := ?e])"
      using found(2) l by (intro fs_write_again [OF sh1 f1 m]) simp_all
    then show ?thesis by (simp add: w)
  next
    case none
    then have nf: "fs_find nm fs < 0" by simp
    from nf show ?thesis
    proof (cases rule: fs_create_cases)
      case full
      then show ?thesis using nf by (simp add: fs_write_def)
    next
      case (made i)
      let ?c = "(fs ! i)\<lparr>used := 1, size_e := 0, name := fs_name_copy nm 0 (name (fs ! i))\<rparr>"
      let ?e = "?c\<lparr>data := buf @ drop ?n (data (fs ! i)), size_e := ?L\<rparr>"
      have d: "length (data ((fs[i := ?c]) ! i)) = MAX_FILE_SIZE"
        using made(1) l fs_shape_nth(2) [OF sh made(1)] by simp
      have w: "fs_write nm buf ?L fs = (?L, fs[i := ?e])"
        using nf made(1,3) l fs_write_at_buf [OF m d] by (simp add: fs_write_def)
      note nc = fs_name_copy_cstr [OF fs_shape_nth(1) [OF sh made(1)] nm(1)]
      have sh1: "fs_shape (fs[i := ?e])"
        using fs_shape_nth [OF sh made(1)] m nc(1) by (intro fs_shape_update [OF sh]) simp_all
      have "fs_match ?e nm"
        using nc nm(2) by (subst fs_match_iff) (simp_all add: nm(1))
      moreover have "\<forall>k<i. \<not> (used (fs[i := ?e] ! k) \<noteq> 0 \<and> fs_match (fs[i := ?e] ! k) nm)"
        using none(2) made(1) by simp
      ultimately have f1: "fs_find nm (fs[i := ?e]) = int i"
        using made(1) l by (intro fs_find_eqI) simp_all
      have "fs_write nm buf ?L (fs[i := ?e]) = (?L, fs[i := ?e])"
        using made(1) l by (intro fs_write_again [OF sh1 f1 m]) simp_all
      then show ?thesis by (simp add: w)
    qed
  qed
qed

lemma vga_puts_append: "vga_puts (a @ b) t = vga_puts b (vga_puts a t)"
  by (simp add: vga_puts_def)

lemma sint_small:
  assumes "0 \<le> r" "r < 2 ^ 31"
  shows "sint (word_of_int r :: u32) = r" "unat (word_of_int r :: u32) = nat r"
    "(word_of_int r :: u32) = 0 \<longleftrightarrow> r = 0"
proof -
  show 1: "sint (word_of_int r :: u32) = r"
    using assms by (simp add: sint_sbintrunc' signed_take_bit_int_eq_self)
  have 2: "uint (word_of_int r :: u32) = r"
    using assms by (simp add: uint_word_of_int mod_pos_pos_trivial)
  then show "unat (word_of_int r :: u32) = nat r" by (simp only: unat_eq_nat_uint)
  from 2 show "(word_of_int r :: u32) = 0 \<longleftrightarrow> r = 0"
    by auto
qed

lemma kprintf_saved:
  assumes "0 \<le> r" "r < 2 ^ 31"
  shows "kprintf ''Saved %d bytes\<newline>'' [ArgInt (word_of_int r)] t =
           Some (vga_puts (''Saved '' @ decimal (nat r) @ '' bytes\<newline>'') t)"
proof -
  have "kputi (word_of_int r) 10 t' = Some (vga_puts (decimal (nat r)) t')" for t'
    using kputi_nonneg [of "word_of_int r" t'] sint_small [OF assms] assms
    by (simp add: decimal_def)
  then show ?thesis
    by (simp add: kprintf.simps vga_puts_append) (simp add: vga_puts_def)
qed

lemma save_report:
  assumes "- 1 \<le> r" "r < 2 ^ 31"
  shows "(if r < 0 then kprintf ''Save failed\<newline>'' [] t
          else kprintf ''Saved %d bytes\<newline>'' [ArgInt (word_of_int r)] t) =
         Some (vga_puts (save_msg r) t)"
proof (cases "r < 0")
  case True
  then show ?thesis by (simp add: save_msg_def kprintf.simps vga_puts_def)
next
  case False
  with assms kprintf_saved [of r t] show ?thesis by (simp add: save_msg_def)
qed

lemma fs_write_count:
  assumes "fs_shape fs" "length buf \<le> MAX_FILE_SIZE"
  shows "fst (fs_write nm buf (int (length buf)) fs) = - 1 \<or>
         fst (fs_write nm buf (int (length buf)) fs) = int (length buf)"
proof (cases rule: fs_find_cases [of nm fs])
  case (found i)
  then show ?thesis
    using fs_write_at_buf [OF assms(2) fs_shape_nth(2) [OF assms(1) found(2)]]
    by (simp add: fs_write_def)
next
  case none
  then have nf: "fs_find nm fs < 0" by simp
  from nf show ?thesis
  proof (cases rule: fs_create_cases)
    case full
    then show ?thesis using nf by (simp add: fs_write_def)
  next
    case (made i)
    let ?c = "(fs ! i)\<lparr>used := 1, size_e := 0, name := fs_name_copy nm 0 (name (fs ! i))\<rparr>"
    from assms(1) have l: "length fs = MAX_FILES" by (simp add: fs_shape_def)
    have d: "length (data ((fs[i := ?c]) ! i)) = MAX_FILE_SIZE"
      using made(1) l fs_shape_nth(2) [OF assms(1) made(1)] by simp
    show ?thesis
      using nf made(1,3) l fs_write_at_buf [OF assms(2) d] by (simp add: fs_write_def)
  qed
qed

lemma nano_line_save:
  assumes "fs_shape (files s)" "length buf \<le> MAX_FILE_SIZE"
  shows "nano_line filename ''.save'' buf s =
     Some (True, buf,
           s\<lparr>files := snd (fs_write filename buf (int (length buf)) (files s)),
             con := vga_puts (save_msg (fst (fs_write filename buf (int (length buf)) (files s))))
                      (con s)\<rparr>)"
proof -
  let ?r = "fst (fs_write filename buf (int (length buf)) (files s))"
  from fs_write_count [OF assms, of filename] assms(2)
  have "- 1 \<le> ?r" "?r < 2 ^ 31" by auto
  from save_report [OF this, of "con s"] show ?thesis
    by (simp add: nano_line_def str_at_def case_prod_unfold Let_def)
qed

lemma str_at_eqI:
  assumes "NUL \<notin> set l" "NUL \<notin> set w" "\<forall>k\<le>length w. str_at l k = str_at w k"
  shows "l = w"
proof (rule nth_equalityI)
  from assms(3) have "str_at l (length w) = NUL" by (simp add: str_at_def)
  then have 1: "length l \<le> length w" using assms(1) by (simp add: str_at_NUL_iff)
  have 2: "length w \<le> length l"
  proof (rule ccontr)
    assume "\<not> length w \<le> length l"
    then have k: "length l < length w" by simp
    with assms(3) have "str_at l (length l) = str_at w (length l)" by simp
    then have "str_at w (length l) = NUL" by (simp add: str_at_def)
    with k assms(2) show False by (simp add: str_at_NUL_iff)
  qed
  from 1 2 show len: "length l = length w" by simp
  fix i assume i: "i < length l"
  with len assms(3) have "str_at l i = str_at w i" by simp
  with i len show "l ! i = w ! i" by (simp add: str_at_def)
qed

lemma le5: "k \<le> (5::nat) \<longleftrightarrow> k = 0 \<or> k = 1 \<or> k = 2 \<or> k = 3 \<or> k = 4 \<or> k = 5"
  by arith

lemma le3: "k \<le> (3::nat) \<longleftrightarrow> k = 0 \<or> k = 1 \<or> k = 2 \<or> k = 3"
  by arith

lemma le2: "k \<le> (2::nat) \<longleftrightarrow> k = 0 \<or> k = 1 \<or> k = 2"
  by arith

lemma kprintf_plain:
  "CHR ''%'' \<notin> set fmt \<Longrightarrow> kprintf fmt args t = Some (vga_puts fmt t)"
  by (induction fmt arbitrary: t) (auto simp: kprintf.simps vga_puts_def)

lemma nano_line_other:
  assumes "other_command line"
  shows "\<exists>t. nano_line filename line buf s = Some (True, buf, s\<lparr>con := t\<rparr>)"
proof (cases "line = []")
  case True
  then have "nano_line filename line buf s = Some (True, buf, s\<lparr>con := con s\<rparr>)"
    by (simp add: nano_line_def str_at_def)
  then show ?thesis by blast
next
  case False
  with assms have n: "NUL \<notin> set line" and d: "str_at line 0 = CHR ''.''"
    and x: "line \<noteq> ''.save''" "line \<noteq> ''.wq''" "line \<noteq> ''.q''"
    by (auto simp: other_command_def str_at_def hd_conv_nth)
  have save: "\<not> (str_at line 1 = CHR ''s'' \<and> str_at line 2 = CHR ''a'' \<and> str_at line 3 = CHR ''v'' \<and>
                 str_at line 4 = CHR ''e'' \<and> str_at line 5 = NUL)"
  proof
    assume a: "str_at line 1 = CHR ''s'' \<and> str_at line 2 = CHR ''a'' \<and> str_at line 3 = CHR ''v'' \<and>
                 str_at line 4 = CHR ''e'' \<and> str_at line 5 = NUL"
    have "str_at line k = str_at ''.save'' k" if "k \<le> 5" for k
      using that a d unfolding le5 by (elim disjE) (simp_all add: str_at_def [of "''.save''"])
    then have "line = ''.save''" by (intro str_at_eqI [OF n]) simp_all
    with x show False by simp
  qed
  have wq: "\<not> (str_at line 1 = CHR ''w'' \<and> str_at line 2 = CHR ''q'' \<and> str_at line 3 = NUL)"
  proof
    assume a: "str_at line 1 = CHR ''w'' \<and> str_at line 2 = CHR ''q'' \<and> str_at line 3 = NUL"
    have "str_at line k = str_at ''.wq'' k" if "k \<le> 3" for k
      using that a d unfolding le3 by (elim disjE) (simp_all add: str_at_def [of "''.wq''"])
    then have "line = ''.wq''" by (intro str_at_eqI [OF n]) simp_all
    with x show False by simp
  qed
  have q: "\<not> (str_at line 1 = CHR ''q'' \<and> str_at line 2 = NUL)"
  proof
    assume a: "str_at line 1 = CHR ''q'' \<and> str_at line 2 = NUL"
    have "str_at line k = str_at ''.q'' k" if "k \<le> 2" for k
      using that a d unfolding le2 by (elim disjE) (simp_all add: str_at_def [of "''.q''"])
    then have "line = ''.q''" by (intro str_at_eqI [OF n]) simp_all
    with x show False by simp
  qed
  have u: "kprintf ''Unknown editor command: %s\<newline>'' [ArgStr (Some line)] (con s) =
      Some (vga_puts (''Unknown editor command: '' @ line @ ''\<newline>'') (con s))"
    by (simp add: kprintf.simps vga_puts_append) (simp add: vga_puts_def)
  have nz: "str_at line 0 \<noteq> NUL" using d by simp
  have hp: "kprintf ''Editor commands:\<newline>'' [] t = Some (vga_puts ''Editor commands:\<newline>'' t)"
    "kprintf ''  .help - show this message\<newline>'' [] t = Some (vga_puts ''  .help - show this message\<newline>'' t)"
    "kprintf ''  .save - save to file\<newline>'' [] t = Some (vga_puts ''  .save - save to file\<newline>'' t)"
    "kprintf ''  .wq   - write and quit\<newline>'' [] t = Some (vga_puts ''  .wq   - write and quit\<newline>'' t)"
    "kprintf ''  .quit - quit without saving\<newline>'' [] t = Some (vga_puts ''  .quit - quit without saving\<newline>'' t)"
    for t
    by (simp_all add: kprintf_plain)
  show ?thesis
  proof (cases "str_at line 1 = NUL")
    case True
    then have "nano_line filename line buf s = Some (True, buf, s\<lparr>con := con s\<rparr>)"
      using d by (simp add: nano_line_def)
    then show ?thesis by blast
  next
    case n1: False
    show ?thesis
    proof (cases "str_at line 1 = CHR ''h'' \<and> str_at line 2 = CHR ''e'' \<and> str_at line 3 = CHR ''l'' \<and>
                 str_at line 4 = CHR ''p'' \<and> str_at line 5 = NUL")
      case True
      then have "nano_line filename line buf s =
          Some (True, buf, s\<lparr>con := vga_puts ''  .quit - quit without saving\<newline>''
                 (vga_puts ''  .wq   - write and quit\<newline>''
                   (vga_puts ''  .save - save to file\<newline>''
                     (vga_puts ''  .help - show this message\<newline>''
                       (vga_puts ''Editor commands:\<newline>'' (con s)))))\<rparr>)"
        using d by (simp add: nano_line_def hp)
      then show ?thesis by blast
    next
      case False
      then have "nano_line filename line buf s =
          Some (True, buf, s\<lparr>con := vga_puts (''Unknown editor command: '' @ line @ ''\<newline>'') (con s)\<rparr>)"
        using d n1 save wq q by (auto simp add: nano_line_def u)
      then show ?thesis by blast
    qed
  qed
qed

lemma fs_write_buf_cases:
  assumes sh: "fs_shape fs" and m: "length buf \<le> MAX_FILE_SIZE"
  obtains (failed) "fs_find nm fs < 0" "\<forall>i<MAX_FILES. used (fs ! i) \<noteq> 0"
      "fs_write nm buf (int (length buf)) fs = (- 1, fs)"
  | (found) i where "fs_find nm fs = int i" "i < MAX_FILES"
      "fs_write nm buf (int (length buf)) fs =
        (int (length buf),
         fs[i := (fs ! i)\<lparr>data := buf @ drop (length buf) (data (fs ! i)),
                          size_e := int (length buf)\<rparr>])"
  | (made) i where "fs_find nm fs < 0" "i < MAX_FILES" "used (fs ! i) = 0"
      "fs_write nm buf (int (length buf)) fs =
        (int (length buf),
         fs[i := (fs ! i)\<lparr>used := 1, size_e := 0,
                          name := fs_name_copy nm 0 (name (fs ! i)),
                          data := buf @ drop (length buf) (data (fs ! i)),
                          size_e := int (length buf)\<rparr>])"
proof (cases rule: fs_find_cases [of nm fs])
  case (found i)
  have "fs_write nm buf (int (length buf)) fs =
        (int (length buf),
         fs[i := (fs ! i)\<lparr>data := buf @ drop (length buf) (data (fs ! i)),
                          size_e := int (length buf)\<rparr>])"
    using found(1) fs_write_at_buf [OF m fs_shape_nth(2) [OF sh found(2)]]
    by (simp add: fs_write_def)
  with found(1,2) show ?thesis by (rule that(2))
next
  case none
  then have nf: "fs_find nm fs < 0" by simp
  from sh have l: "length fs = MAX_FILES" by (simp add: fs_shape_def)
  from nf show ?thesis
  proof (cases rule: fs_create_cases)
    case full
    then have "fs_write nm buf (int (length buf)) fs = (- 1, fs)"
      using nf by (simp add: fs_write_def)
    with nf full(2) show ?thesis by (rule that(1))
  next
    case (made i)
    let ?c = "(fs ! i)\<lparr>used := 1, size_e := 0, name := fs_name_copy nm 0 (name (fs ! i))\<rparr>"
    have d: "length (data ((fs[i := ?c]) ! i)) = MAX_FILE_SIZE"
      using made(1) l fs_shape_nth(2) [OF sh made(1)] by simp
    have "fs_write nm buf (int (length buf)) fs =
        (int (length buf),
         fs[i := (fs ! i)\<lparr>used := 1, size_e := 0,
                          name := fs_name_copy nm 0 (name (fs ! i)),
                          data := buf @ drop (length buf) (data (fs ! i)),
                          size_e := int (length buf)\<rparr>])"
      using nf made(1,3) l fs_write_at_buf [OF m d] by (simp add: fs_write_def)
    with nf made(1,2) show ?thesis by (rule that(3))
  qed
qed

lemma length_fs_name_copy: "length (fs_name_copy nm j arr) = length arr"
proof (induction nm j arr rule: fs_name_copy.induct)
  case (1 nm j arr)
  show ?case
  proof (cases "j < MAX_NAME - 1 \<and> str_at nm j \<noteq> NUL")
    case True
    then have "fs_name_copy nm j arr = fs_name_copy nm (Suc j) (arr[j := str_at nm j])"
      by (subst fs_name_copy.simps) auto
    with 1 True show ?thesis by simp
  next
    case False
    then have "fs_name_copy nm j arr = arr[j := NUL]"
      by (subst fs_name_copy.simps) auto
    then show ?thesis by simp
  qed
qed

lemma fs_write_shape:
  assumes sh: "fs_shape fs" and m: "length buf \<le> MAX_FILE_SIZE"
  shows "fs_shape (snd (fs_write nm buf (int (length buf)) fs))"
  using sh m
proof (cases rule: fs_write_buf_cases [where nm = nm])
  case failed
  then show ?thesis using sh by simp
next
  case (found i)
  show ?thesis
    unfolding found(3) snd_conv
    using fs_shape_nth [OF sh found(2)] m by (intro fs_shape_update [OF sh]) simp_all
next
  case (made i)
  show ?thesis
    unfolding made(4) snd_conv
    using fs_shape_nth [OF sh made(2)] m
    by (intro fs_shape_update [OF sh]) (simp_all add: length_fs_name_copy)
qed

lemma read_line_save:
  "read_line INPUT_BUF [] (''.save\<newline>'' @ k) t = Some (''.save'', k, vga_puts ''.save\<newline>'' t)"
  by (simp add: cstr_def vga_puts_def)

lemma nano_turn_save:
  assumes "fs_shape (files s)" "length buf \<le> MAX_FILE_SIZE" "keys s = ''.save\<newline>'' @ k"
  shows "nano_turn filename buf s =
     Some (True, buf,
           s\<lparr>files := snd (fs_write filename buf (int (length buf)) (files s)),
             con := vga_puts (''edit> .save\<newline>'' @
                      save_msg (fst (fs_write filename buf (int (length buf)) (files s))))
                      (con s),
             keys := k\<rparr>)"
proof -
  have p: "kprintf ''edit> '' [] (con s) = Some (vga_puts ''edit> '' (con s))"
    by (simp add: kprintf_plain)
  let ?s1 = "s\<lparr>con := vga_puts ''.save\<newline>'' (vga_puts ''edit> '' (con s)), keys := k\<rparr>"
  have "nano_turn filename buf s = nano_line filename ''.save'' buf ?s1"
    unfolding nano_turn_def p assms(3) by (simp only: option.case read_line_save prod.case)
  also have "\<dots> = Some (True, buf,
           ?s1\<lparr>files := snd (fs_write filename buf (int (length buf)) (files ?s1)),
             con := vga_puts (save_msg (fst (fs_write filename buf (int (length buf)) (files ?s1))))
                      (con ?s1)\<rparr>)"
    using assms(1,2) by (intro nano_line_save) simp_all
  finally show ?thesis
    by (simp add: vga_puts_append) (simp add: vga_puts_def)
qed

subsection \<open>Saving on the view, and a table with one slot left\<close>

lemma fs_write_view:
  assumes ok: "fs_ok fs" and nm: "NUL \<notin> set nm" and m: "length buf \<le> MAX_FILE_SIZE"
  shows "fs_ok (snd (fs_write nm buf (int (length buf)) fs))"
    and "(fst (fs_write nm buf (int (length buf)) fs),
          fs_view (snd (fs_write nm buf (int (length buf)) fs))) =
         v_write nm (int (length buf)) (fs_view fs)"
proof -
  let ?L = "int (length buf)"
  let ?v = "fs_view fs"
  note fv = fs_find_view [OF ok nm]
  obtain i fs1 where p: "(if fs_find nm fs < 0 then fs_create nm fs else (fs_find nm fs, fs)) = (i, fs1)"
    by (cases "if fs_find nm fs < 0 then fs_create nm fs else (fs_find nm fs, fs)") auto
  have ok1: "fs_ok fs1"
    using p ok fs_create_view(2) [OF ok nm] by (auto split: if_splits)
  have pv: "(if v_find nm ?v < 0 then v_create nm ?v else (v_find nm ?v, ?v)) = (i, fs_view fs1)"
    using p fs_create_view(1) [OF ok nm] by (auto simp: fv split: if_splits)
  have w: "fs_write nm buf ?L fs =
      (if i < 0 then (- 1, fs1)
       else (let (n, d) = fs_write_copy buf ?L 0 (data (fs1 ! nat i))
             in (int n, fs1[nat i := (fs1 ! nat i)\<lparr>data := d, size_e := int n\<rparr>])))"
    using p by (simp add: fs_write_def Let_def)
  have "fs_ok (snd (fs_write nm buf ?L fs)) \<and>
      (fst (fs_write nm buf ?L fs), fs_view (snd (fs_write nm buf ?L fs))) = v_write nm ?L ?v"
  proof (cases "i < 0")
    case True
    with w ok1 pv show ?thesis by (simp add: v_write_def)
  next
    case False
    have iv: "nat i < MAX_FILES \<and> fs_view fs1 ! nat i \<noteq> None"
    proof (cases "fs_find nm fs < 0")
      case True
      with p have c: "fs_create nm fs = (i, fs1)" by simp
      with False have "0 \<le> fst (fs_create nm fs)" by simp
      from ok nm this show ?thesis
        by (rule fs_create_success) (use c fs_ok_length [OF ok] in auto)
    next
      case nf: False
      with p have e: "fs_find nm fs = i" "fs1 = fs" by auto
      with False fv have "v_find nm ?v = int (nat i)" by simp
      then show ?thesis unfolding v_find_some e by auto
    qed
    let ?e = "(fs1 ! nat i)\<lparr>data := buf @ drop (length buf) (data (fs1 ! nat i)), size_e := ?L\<rparr>"
    from False w fs_write_at_buf [OF m fs_ok_nth(2) [OF ok1 iv [THEN conjunct1]]]
    have w': "fs_write nm buf ?L fs = (?L, fs1[nat i := ?e])" by simp
    have "fs_ok (fs1[nat i := ?e])"
      using fs_ok_nth [OF ok1 iv [THEN conjunct1]] m by (intro fs_ok_update [OF ok1]) simp_all
    moreover have "fs_view (fs1[nat i := ?e]) =
        (fs_view fs1)[nat i := map_option (\<lambda>(n, sz). (n, ?L)) (fs_view fs1 ! nat i)]"
      using iv fs_ok_length [OF ok1] by (auto simp: fs_view_update fs_view_nth split: if_splits)
    ultimately show ?thesis
      using False pv by (simp add: w' v_write_def)
  qed
  then show "fs_ok (snd (fs_write nm buf ?L fs))"
    and "(fst (fs_write nm buf ?L fs), fs_view (snd (fs_write nm buf ?L fs))) =
         v_write nm ?L ?v"
    by simp_all
qed

lemma fold_create_view:
  assumes "fs_ok fs" "\<forall>nm\<in>set ns. NUL \<notin> set nm"
  shows "fs_ok (fold (\<lambda>nm fs. snd (fs_create nm fs)) ns fs) \<and>
         fs_view (fold (\<lambda>nm fs. snd (fs_create nm fs)) ns fs) =
           fold (\<lambda>nm v. snd (v_create nm v)) ns (fs_view fs)"
  using assms
proof (induction ns arbitrary: fs)
  case Nil
  then show ?case by simp
next
  case (Cons n ns)
  from Cons.prems have n: "NUL \<notin> set n" by simp
  note c = fs_create_view [OF Cons.prems(1) n]
  from Cons.IH [OF c(2)] Cons.prems(2) c(1) show ?case by simp
qed

lemma files_one_free_view:
  "fs_ok files_one_free \<and>
   fs_view files_one_free =
     [Some (''welcome'', 39), Some (''a'', 0), Some (''b'', 0), Some (''c'', 0),
      Some (''d'', 0), Some (''e'', 0), Some (''f'', 0), Some (''g'', 0),
      Some (''h'', 0), Some (''i'', 0), Some (''j'', 0), Some (''k'', 0),
      Some (''l'', 0), Some (''m'', 0), Some (''n'', 0), None]"
proof -
  note i = fs_init_view [OF files_zero_ok]
  have "\<forall>nm\<in>set [''a'', ''b'', ''c'', ''d'', ''e'', ''f'', ''g'', ''h'', ''i'', ''j'', ''k'',
      ''l'', ''m'', ''n'']. NUL \<notin> set nm"
    by simp
  from fold_create_view [OF i(1) this] show ?thesis
    unfolding files_one_free_def i(2) view16
    by (simp add: v_create_def v_find_def upt16)
qed

lemma decimal_2: "decimal 2 = ''2''"
  by (simp add: decimal_def digits_lsf.simps digit_char_nth)

text \<open>
  Saving twice, for a file name of at most \<open>MAX_NAME - 1 = 15\<close> characters. Let
  \<open>(r, fs1)\<close> be what \<^verbatim>\<open>fs_write\<close> returns for the edit buffer on the current table. A
  turn of the editor loop that reads \<open>.save\<close> leaves the buffer as it is, makes \<open>fs1\<close> the
  table and reports \<open>r\<close> (\<open>Saved r bytes\<close>, or \<open>Save failed\<close>). A later turn that reads
  \<open>.save\<close> with the same buffer on the table \<open>fs1\<close> writes the same bytes: \<^verbatim>\<open>fs_write\<close>
  returns \<open>(r, fs1)\<close> again, so the table is \<open>fs1\<close> still and the report is the same.
  Other command lines in between change neither buffer nor table.
\<close>

theorem save_twice_same:
  assumes sh: "fs_shape (files s)" and fn: "NUL \<notin> set filename" "length filename < MAX_NAME"
    and m: "length buf \<le> MAX_FILE_SIZE"
  shows "let (r, fs1) = fs_write filename buf (int (length buf)) (files s);
             say = vga_puts (''edit> .save\<newline>'' @ save_msg r)
         in (\<forall>t k. nano_turn filename buf (s\<lparr>con := t, keys := ''.save\<newline>'' @ k\<rparr>) =
                      Some (True, buf, s\<lparr>files := fs1, con := say t, keys := k\<rparr>)) \<and>
            (\<forall>t k. nano_turn filename buf \<lparr>files = fs1, con = t, keys = ''.save\<newline>'' @ k\<rparr> =
                      Some (True, buf, \<lparr>files = fs1, con = say t, keys = k\<rparr>)) \<and>
            fs_write filename buf (int (length buf)) fs1 = (r, fs1) \<and>
            (\<forall>line s'. other_command line \<longrightarrow>
               (\<exists>t. nano_line filename line buf s' = Some (True, buf, s'\<lparr>con := t\<rparr>)))"
proof -
  let ?W = "fs_write filename buf (int (length buf)) (files s)"
  let ?say = "vga_puts (''edit> .save\<newline>'' @ save_msg (fst ?W))"
  have idem: "fs_write filename buf (int (length buf)) (snd ?W) = ?W"
    by (rule fs_write_idem [OF sh fn m])
  have sh1: "fs_shape (snd ?W)" by (rule fs_write_shape [OF sh m])
  have 1: "nano_turn filename buf (s\<lparr>con := t, keys := ''.save\<newline>'' @ k\<rparr>) =
      Some (True, buf, s\<lparr>files := snd ?W, con := ?say t, keys := k\<rparr>)" for t k
    using nano_turn_save [of "s\<lparr>con := t, keys := ''.save\<newline>'' @ k\<rparr>" buf k filename] sh m
    by simp
  have 2: "nano_turn filename buf \<lparr>files = snd ?W, con = t, keys = ''.save\<newline>'' @ k\<rparr> =
      Some (True, buf, \<lparr>files = snd ?W, con = ?say t, keys = k\<rparr>)" for t k
    using nano_turn_save [of "\<lparr>files = snd ?W, con = t, keys = ''.save\<newline>'' @ k\<rparr>" buf k filename]
      sh1 m
    by (simp add: idem)
  have 3: "fs_write filename buf (int (length buf)) (snd ?W) = (fst ?W, snd ?W)"
    by (simp add: idem)
  from 1 2 3 nano_line_other show ?thesis
    by (simp add: case_prod_unfold Let_def)
qed

theorem save_twice_same_boot:
  "nano_turn ''b'' ''hi'' \<lparr>files = fs_init files_zero, con = console_boot, keys = ''.save\<newline>''\<rparr> =
     Some (True, ''hi'',
           \<lparr>files = snd (fs_write ''b'' ''hi'' 2 (fs_init files_zero)),
            con = vga_puts ''edit> .save\<newline>Saved 2 bytes\<newline>'' console_boot, keys = []\<rparr>) \<and>
   nano_turn ''b'' ''hi''
     \<lparr>files = snd (fs_write ''b'' ''hi'' 2 (fs_init files_zero)),
      con = console_boot, keys = ''.save\<newline>''\<rparr> =
     Some (True, ''hi'',
           \<lparr>files = snd (fs_write ''b'' ''hi'' 2 (fs_init files_zero)),
            con = vga_puts ''edit> .save\<newline>Saved 2 bytes\<newline>'' console_boot, keys = []\<rparr>) \<and>
   fs_write ''b'' ''hi'' 2 (snd (fs_write ''b'' ''hi'' 2 (fs_init files_zero))) =
     (2, snd (fs_write ''b'' ''hi'' 2 (fs_init files_zero)))"
proof -
  have r: "fst (fs_write ''b'' ''hi'' 2 (fs_init files_zero)) = 2"
    using boot_files_b by (simp add: fs_write_def Let_def case_prod_unfold fs_write_copy.simps)
  from save_twice_same [of "\<lparr>files = fs_init files_zero, con = console_boot, keys = []\<rparr>"
      "''b''" "''hi''"] fs_ok_shape [OF fs_init_view(1) [OF files_zero_ok]]
  show ?thesis
    by (simp add: case_prod_unfold Let_def r save_msg_def decimal_2) (simp add: prod_eq_iff r)
qed

subsection \<open>Saving twice under a name longer than the name array\<close>

text \<open>A name of \<open>MAX_NAME\<close> characters or more is never found: stored names are shorter.\<close>

lemma long_name_not_found:
  assumes ok: "fs_ok fs" and nm: "NUL \<notin> set nm" and long: "MAX_NAME \<le> length nm"
  shows "fs_find nm fs = - 1"
proof -
  have "map_option fst (fs_view fs ! j) \<noteq> Some nm" if j: "j < MAX_FILES" for j
  proof (cases "used (fs ! j) = 0")
    case True
    then show ?thesis using j fs_ok_length [OF ok] by (simp add: fs_view_nth)
  next
    case False
    from cstr_length [OF fs_ok_nth(3) [OF ok j]] fs_ok_nth(1) [OF ok j] long
    have "cstr (name (fs ! j)) \<noteq> nm" by auto
    with False show ?thesis using j fs_ok_length [OF ok] by (simp add: fs_view_nth)
  qed
  then have "v_find nm (fs_view fs) = - 1" by (simp add: v_find_none)
  then show ?thesis by (simp add: fs_find_view [OF ok nm])
qed

lemma decimal_3: "decimal 3 = ''3''"
  by (simp add: decimal_def digits_lsf.simps digit_char_nth)

lemma last_slot_save:
  "fs_shape files_one_free"
  "fs_find ''aaaaaaaaaaaaaaaa'' files_one_free = - 1"
  "fs_shape (snd (fs_write ''aaaaaaaaaaaaaaaa'' ''hi\<newline>'' 3 files_one_free))"
  "fst (fs_write ''aaaaaaaaaaaaaaaa'' ''hi\<newline>'' 3 files_one_free) = 3"
  "fst (fs_write ''aaaaaaaaaaaaaaaa'' ''hi\<newline>'' 3
          (snd (fs_write ''aaaaaaaaaaaaaaaa'' ''hi\<newline>'' 3 files_one_free))) = - 1"
  "snd (fs_write ''aaaaaaaaaaaaaaaa'' ''hi\<newline>'' 3
          (snd (fs_write ''aaaaaaaaaaaaaaaa'' ''hi\<newline>'' 3 files_one_free))) =
   snd (fs_write ''aaaaaaaaaaaaaaaa'' ''hi\<newline>'' 3 files_one_free)"
  "fs_entries (snd (fs_write ''aaaaaaaaaaaaaaaa'' ''hi\<newline>'' 3 files_one_free)) =
     [(''welcome'', 39), (''a'', 0), (''b'', 0), (''c'', 0), (''d'', 0), (''e'', 0),
      (''f'', 0), (''g'', 0), (''h'', 0), (''i'', 0), (''j'', 0), (''k'', 0), (''l'', 0),
      (''m'', 0), (''n'', 0), (''aaaaaaaaaaaaaaa'', 3)]"
proof -
  let ?nm = "''aaaaaaaaaaaaaaaa''"
  let ?b = "''hi\<newline>''"
  let ?W = "fs_write ?nm ?b 3 files_one_free"
  note v = files_one_free_view
  have nm: "NUL \<notin> set ?nm" by simp
  have m: "length ?b \<le> MAX_FILE_SIZE" by simp
  show sh: "fs_shape files_one_free" using v by (simp add: fs_ok_shape)
  show "fs_find ?nm files_one_free = - 1"
    by (rule long_name_not_found [OF v [THEN conjunct1]]) simp_all
  from fs_write_view [OF v [THEN conjunct1] nm m]
  have ok1: "fs_ok (snd ?W)"
    and w1: "(fst ?W, fs_view (snd ?W)) = v_write ?nm 3 (fs_view files_one_free)"
    by simp_all
  from w1 show r1: "fst ?W = 3"
    unfolding v [THEN conjunct2] by (simp add: v_write_def v_create_def v_find_def upt16)
  from w1 have v1: "fs_view (snd ?W) =
     [Some (''welcome'', 39), Some (''a'', 0), Some (''b'', 0), Some (''c'', 0),
      Some (''d'', 0), Some (''e'', 0), Some (''f'', 0), Some (''g'', 0),
      Some (''h'', 0), Some (''i'', 0), Some (''j'', 0), Some (''k'', 0),
      Some (''l'', 0), Some (''m'', 0), Some (''n'', 0), Some (''aaaaaaaaaaaaaaa'', 3)]"
    unfolding v [THEN conjunct2] by (simp add: v_write_def v_create_def v_find_def upt16)
  then show "fs_entries (snd ?W) =
     [(''welcome'', 39), (''a'', 0), (''b'', 0), (''c'', 0), (''d'', 0), (''e'', 0),
      (''f'', 0), (''g'', 0), (''h'', 0), (''i'', 0), (''j'', 0), (''k'', 0), (''l'', 0),
      (''m'', 0), (''n'', 0), (''aaaaaaaaaaaaaaa'', 3)]"
    by (simp add: fs_entries_view)
  from fs_write_shape [OF sh m, of ?nm] show sh1: "fs_shape (snd ?W)" by simp
  from fs_write_view(2) [OF ok1 nm m]
  have w2: "(fst (fs_write ?nm ?b 3 (snd ?W)), fs_view (snd (fs_write ?nm ?b 3 (snd ?W)))) =
      v_write ?nm 3 (fs_view (snd ?W))"
    by simp
  then show r2: "fst (fs_write ?nm ?b 3 (snd ?W)) = - 1"
    unfolding v1 by (simp add: v_write_def v_create_def v_find_def upt16)
  from sh1 m show "snd (fs_write ?nm ?b 3 (snd ?W)) = snd ?W"
  proof (cases rule: fs_write_buf_cases [where nm = ?nm])
    case failed
    then show ?thesis by simp
  next
    case (found i)
    with r2 show ?thesis by simp
  next
    case (made i)
    with r2 show ?thesis by simp
  qed
qed

lemma nano_header:
  "kprintf ''--- nano: editing %s (max %d bytes) ---\<newline>''
     [ArgStr (Some fn), ArgInt (of_nat MAX_FILE_SIZE)] t =
   Some (vga_puts (''--- nano: editing '' @ fn @ '' (max 512 bytes) ---\<newline>'') t)"
proof -
  have "kputi 512 10 t' = Some (vga_puts ''512'' t')" for t'
    using kputi_nonneg [of 512 t']
    by (simp add: digits_lsf.simps digit_char_nth)
  then show ?thesis
    by (simp add: kprintf.simps vga_puts_append) (simp add: vga_puts_def)
qed

lemma nano_turn_hi:
  "nano_turn fn [] \<lparr>files = fs, con = t, keys = ''hi\<newline>'' @ k\<rparr> =
     Some (True, ''hi\<newline>'', \<lparr>files = fs, con = vga_puts ''edit> hi\<newline>'' t, keys = k\<rparr>)"
  by (simp add: nano_turn_def kprintf_plain nano_line_def str_at_def cstr_def vga_puts_def)

lemma nano_turn_q:
  "nano_turn fn buf \<lparr>files = fs, con = t, keys = ''.q\<newline>'' @ k\<rparr> =
     Some (False, buf,
           \<lparr>files = fs, con = vga_puts ''edit> .q\<newline>Quit without saving\<newline>'' t, keys = k\<rparr>)"
  by (simp add: nano_turn_def kprintf_plain nano_line_def str_at_def cstr_def vga_puts_def)

lemma nano_long_name_loop:
  fixes t :: console
  defines "fn \<equiv> ''aaaaaaaaaaaaaaaa''"
  defines "fs1 \<equiv> snd (fs_write fn ''hi\<newline>'' 3 files_one_free)"
  shows "nano_loop fn [] \<lparr>files = files_one_free, con = t,
             keys = ''hi\<newline>.save\<newline>.save\<newline>.q\<newline>''\<rparr> =
         Some \<lparr>files = fs1,
               con = vga_puts (''edit> hi\<newline>'' @ ''edit> .save\<newline>Saved 3 bytes\<newline>'' @
                       ''edit> .save\<newline>Save failed\<newline>'' @
                       ''edit> .q\<newline>Quit without saving\<newline>'') t,
               keys = []\<rparr>"
proof -
  let ?t1 = "vga_puts ''edit> hi\<newline>'' t"
  let ?t2 = "vga_puts ''edit> .save\<newline>Saved 3 bytes\<newline>'' ?t1"
  let ?t3 = "vga_puts ''edit> .save\<newline>Save failed\<newline>'' ?t2"
  let ?t4 = "vga_puts ''edit> .q\<newline>Quit without saving\<newline>'' ?t3"
  note f = last_slot_save [folded fn_def, folded fs1_def]
  have 1: "nano_turn fn [] \<lparr>files = files_one_free, con = t,
             keys = ''hi\<newline>.save\<newline>.save\<newline>.q\<newline>''\<rparr> =
      Some (True, ''hi\<newline>'', \<lparr>files = files_one_free, con = ?t1,
             keys = ''.save\<newline>.save\<newline>.q\<newline>''\<rparr>)"
    using nano_turn_hi [of fn files_one_free t "''.save\<newline>.save\<newline>.q\<newline>''"] by simp
  have 2: "nano_turn fn ''hi\<newline>'' \<lparr>files = files_one_free, con = ?t1,
             keys = ''.save\<newline>.save\<newline>.q\<newline>''\<rparr> =
      Some (True, ''hi\<newline>'', \<lparr>files = fs1, con = ?t2, keys = ''.save\<newline>.q\<newline>''\<rparr>)"
    using nano_turn_save [of "\<lparr>files = files_one_free, con = ?t1,
             keys = ''.save\<newline>.save\<newline>.q\<newline>''\<rparr>" "''hi\<newline>''" "''.save\<newline>.q\<newline>''" fn] f
    by (simp add: save_msg_def decimal_3 vga_puts_append [symmetric] fs1_def)
  have 3: "nano_turn fn ''hi\<newline>'' \<lparr>files = fs1, con = ?t2, keys = ''.save\<newline>.q\<newline>''\<rparr> =
      Some (True, ''hi\<newline>'', \<lparr>files = fs1, con = ?t3, keys = ''.q\<newline>''\<rparr>)"
    using nano_turn_save [of "\<lparr>files = fs1, con = ?t2, keys = ''.save\<newline>.q\<newline>''\<rparr>"
        "''hi\<newline>''" "''.q\<newline>''" fn] f
    by (simp add: save_msg_def vga_puts_append [symmetric])
  have 4: "nano_turn fn ''hi\<newline>'' \<lparr>files = fs1, con = ?t3, keys = ''.q\<newline>''\<rparr> =
      Some (False, ''hi\<newline>'', \<lparr>files = fs1, con = ?t4, keys = []\<rparr>)"
    using nano_turn_q [of fn "''hi\<newline>''" fs1 ?t3 "[]"] by simp
  have "nano_loop fn [] \<lparr>files = files_one_free, con = t,
             keys = ''hi\<newline>.save\<newline>.save\<newline>.q\<newline>''\<rparr> =
        Some \<lparr>files = fs1, con = ?t4, keys = []\<rparr>"
    apply (subst nano_loop.simps, simp only: 1 option.case prod.case if_True)
    apply (subst nano_loop.simps, simp only: 2 option.case prod.case if_True)
    apply (subst nano_loop.simps, simp only: 3 option.case prod.case if_True)
    apply (subst nano_loop.simps, simp only: 4 option.case prod.case if_False)
    done
  then show ?thesis by (simp only: vga_puts_append)
qed

text \<open>
  Claim C9 says that two \<open>.save\<close> commands with no text line between them write the
  same file and report the same byte count. The code breaks this for a file name of 16
  characters when one slot is left (\<open>files_one_free\<close>). The session is the command
  \<open>nano aaaaaaaaaaaaaaaa\<close> followed by the lines \<open>hi\<close>, \<open>.save\<close>, \<open>.save\<close> and \<open>.q\<close>. The
  first \<open>.save\<close> creates the file in the last slot, under the first 15 characters of
  the name, and prints \<open>Saved 3 bytes\<close>. The second \<open>.save\<close> calls \<^verbatim>\<open>fs_write\<close> with the
  same buffer and length, but \<^verbatim>\<open>fs_find\<close> compares the full name with the stored 15
  characters and misses the file just written; \<^verbatim>\<open>fs_create\<close> finds no slot, and the
  editor prints \<open>Save failed\<close>.
\<close>

theorem save_twice_long_name:
  "run_command ''nano aaaaaaaaaaaaaaaa''
     \<lparr>files = files_one_free, con = console_boot,
       keys = ''hi\<newline>.save\<newline>.save\<newline>.q\<newline>''\<rparr> =
   Some \<lparr>files = snd (fs_write ''aaaaaaaaaaaaaaaa'' ''hi\<newline>'' 3 files_one_free),
         con = vga_puts
           (''--- nano: editing aaaaaaaaaaaaaaaa (max 512 bytes) ---\<newline>'' @
            ''Commands: .help .save .wq .quit\<newline>'' @
            ''edit> hi\<newline>'' @
            ''edit> .save\<newline>Saved 3 bytes\<newline>'' @
            ''edit> .save\<newline>Save failed\<newline>'' @
            ''edit> .q\<newline>Quit without saving\<newline>'' @
            ''Exiting editor\<newline>'') console_boot,
         keys = []\<rparr> \<and>
   fs_entries (snd (fs_write ''aaaaaaaaaaaaaaaa'' ''hi\<newline>'' 3 files_one_free)) =
     [(''welcome'', 39), (''a'', 0), (''b'', 0), (''c'', 0), (''d'', 0), (''e'', 0),
      (''f'', 0), (''g'', 0), (''h'', 0), (''i'', 0), (''j'', 0), (''k'', 0), (''l'', 0),
      (''m'', 0), (''n'', 0), (''aaaaaaaaaaaaaaa'', 3)] \<and>
   fs_find ''aaaaaaaaaaaaaaaa''
     (snd (fs_write ''aaaaaaaaaaaaaaaa'' ''hi\<newline>'' 3 files_one_free)) = - 1"
proof -
  let ?fn = "''aaaaaaaaaaaaaaaa''"
  let ?s = "\<lparr>files = files_one_free, con = console_boot,
       keys = ''hi\<newline>.save\<newline>.save\<newline>.q\<newline>''\<rparr>"
  let ?h = "''--- nano: editing aaaaaaaaaaaaaaaa (max 512 bytes) ---\<newline>'' @
            ''Commands: .help .save .wq .quit\<newline>''"
  have r: "run_command ''nano aaaaaaaaaaaaaaaa'' ?s = nano_edit ?fn ?s"
    by (simp add: run_command_def skip_spaces_def str_at_def)
  have h: "kprintf ''Commands: .help .save .wq .quit\<newline>'' []
             (vga_puts ''--- nano: editing aaaaaaaaaaaaaaaa (max 512 bytes) ---\<newline>'' console_boot) =
           Some (vga_puts ?h console_boot)"
    by (simp add: kprintf_plain vga_puts_append [symmetric])
  have e: "nano_edit ?fn ?s =
      Some \<lparr>files = snd (fs_write ?fn ''hi\<newline>'' 3 files_one_free),
            con = vga_puts (?h @ ''edit> hi\<newline>'' @ ''edit> .save\<newline>Saved 3 bytes\<newline>'' @
                    ''edit> .save\<newline>Save failed\<newline>'' @
                    ''edit> .q\<newline>Quit without saving\<newline>'' @ ''Exiting editor\<newline>'')
                    console_boot,
            keys = []\<rparr>"
    unfolding nano_edit_def
    using nano_header [of ?fn console_boot] h
      nano_long_name_loop [of "vga_puts ?h console_boot"]
    by (simp add: last_slot_save(2) kprintf_plain vga_puts_append [symmetric])
  have f: "fs_find ?fn (snd (fs_write ?fn ''hi\<newline>'' 3 files_one_free)) = - 1"
  proof -
    have "fs_ok (snd (fs_write ?fn ''hi\<newline>'' 3 files_one_free))"
      using fs_write_view(1) [OF files_one_free_view [THEN conjunct1], of ?fn "''hi\<newline>''"] by simp
    then show ?thesis by (rule long_name_not_found) simp_all
  qed
  from r e f last_slot_save(7) show ?thesis by simp
qed

section \<open>Commands with a missing argument\<close>

text \<open>
  Claim C4 asks for the usage message whenever the file argument of \<open>cat\<close> or \<open>touch\<close>
  is missing. The code tests for a space after the command word, so the bare words
  reach the last branch: \<^verbatim>\<open>run_command\<close> prints \<open>Unknown command: cat\<close> and
  \<open>Unknown command: touch\<close>. (\<open>nano\<close> accepts the bare word and prints its usage.)
\<close>

theorem bare_cat_touch_unknown:
  "run_command ''cat'' s = Some (s\<lparr>con := vga_puts ''Unknown command: cat\<newline>'' (con s)\<rparr>) \<and>
   run_command ''touch'' s = Some (s\<lparr>con := vga_puts ''Unknown command: touch\<newline>'' (con s)\<rparr>)"
  by (simp add: run_command_def skip_spaces_def str_at_def kprintf.simps vga_puts_def)

lemma skip_spaces_replicate [simp]:
  "skip_spaces (replicate n (CHR '' '') @ s) = skip_spaces s"
  by (induction n) (simp_all add: skip_spaces_def)

lemma skip_spaces_only [simp]: "skip_spaces (replicate n (CHR '' '')) = []"
  using skip_spaces_replicate [of n "[]"] by (simp add: skip_spaces_def)

text \<open>With at least one space after the command word, and nothing else, the usage is printed.\<close>

lemma cat_touch_spaces_usage:
  "run_command (replicate n (CHR '' '') @ ''cat '' @ replicate m (CHR '' '')) s =
     Some (s\<lparr>con := vga_puts ''Usage: cat <file>\<newline>'' (con s)\<rparr>) \<and>
   run_command (replicate n (CHR '' '') @ ''touch '' @ replicate m (CHR '' '')) s =
     Some (s\<lparr>con := vga_puts ''Usage: touch <file>\<newline>'' (con s)\<rparr>)"
proof -
  have 1: "skip_spaces (''cat '' @ replicate m (CHR '' '')) = ''cat '' @ replicate m (CHR '' '')"
    "skip_spaces (''touch '' @ replicate m (CHR '' '')) = ''touch '' @ replicate m (CHR '' '')"
    by (simp_all add: skip_spaces_def)
  show ?thesis
    unfolding run_command_def skip_spaces_replicate 1
    by (simp add: str_at_def kprintf.simps vga_puts_def)
qed

end
